theory Spec2Isabelle
  imports Main "HOL-Library.Word" "HOL-Library.Multiset"
begin

section \<open>The utilities of the port-mapping library\<close>

text \<open>
  The source is one JavaScript module: the table \<open>ROUTER_IPS\<close>, the \<open>Mapping\<close>
  constructor, and the helpers \<open>filterRouterIps\<close>, \<open>createArrayBuffer\<close>,
  \<open>countdownReject\<close>, \<open>longestPrefixMatch\<close>, \<open>arrDiff\<close> and \<open>arrAdd\<close>.
  JavaScript numbers are modelled as \<open>int\<close> (the helpers are only applied to integers),
  \<open>undefined\<close> as \<open>None\<close>, a thrown exception as \<open>Inl\<close> of a sum.
\<close>

subsection \<open>Exceptions and array primitives of the language\<close>

datatype exn =
    ParseError   \<comment> \<open>ipaddr: string is not formatted like ip address\<close>
  | RangeError   \<comment> \<open>DataView access outside the buffer\<close>
  | Thrown string

text \<open>\<open>Array.prototype.indexOf\<close>: the index of the first element equal to \<open>x\<close>, or -1.\<close>

fun indexOf :: "'a list \<Rightarrow> 'a \<Rightarrow> int" where
  "indexOf [] x = -1"
| "indexOf (y # ys) x =
     (if y = x then 0 else (let i = indexOf ys x in if i = -1 then -1 else i + 1))"

text \<open>Reading \<open>xs[i]\<close>: \<open>undefined\<close> outside the array, also at the index -1.\<close>

definition arrayGet :: "'a list \<Rightarrow> int \<Rightarrow> 'a option" where
  "arrayGet xs i = (if 0 \<le> i \<and> i < int (length xs) then Some (xs ! nat i) else None)"

text \<open>\<open>Math.max.apply(null, xs)\<close>: \<open>-Infinity\<close> for the empty array.\<close>

datatype jsnum = NegInfinity | Num int

fun Math_max :: "int list \<Rightarrow> jsnum" where
  "Math_max [] = NegInfinity"
| "Math_max (x # xs) = (case Math_max xs of NegInfinity \<Rightarrow> Num x | Num m \<Rightarrow> Num (max x m))"

subsection \<open>Mapping\<close>

text \<open>
  The constructor sets every field to \<open>undefined\<close> but \<open>externalPort\<close>, which is -1.
  The deleter is a closure; its type is left open.
\<close>

record 'd Mapping =
  internalIp :: "string option"
  internalPort :: "int option"
  externalIp :: "string option"
  externalPort :: "int option"
  lifetime :: "int option"
  protocol :: "string option"
  timeoutId :: "int option"
  nonce :: "int list option"
  deleter :: "'d option"
  errInfo :: "string option"

definition new_Mapping :: "'d Mapping" where
  "new_Mapping =
     \<lparr> internalIp = None, internalPort = None, externalIp = None, externalPort = Some (-1),
       lifetime = None, protocol = None, timeoutId = None, nonce = None, deleter = None,
       errInfo = None \<rparr>"

subsection \<open>IPv4 addresses: the part of ipaddr.js the module calls\<close>

text \<open>
  \<open>longestPrefixMatch\<close> calls \<open>ipaddr.IPv4.parse\<close> and \<open>match\<close> of the library ipaddr.js,
  which is a dependency and not a file of the repository. An address is the list of its
  four octets, as in the library. Of the notations the library's parser reads, the model
  keeps the dotted decimal one: four parts of decimal digits, no leading zero, each at
  most 255. This is the notation of \<open>ROUTER_IPS\<close> and of \<open>os.networkInterfaces\<close>. On every
  other string the model raises the parse error (the library also reads octal,
  hexadecimal and shortened notations, which are left out).
\<close>

type_synonym ipv4 = "nat list"

definition isDigit :: "char \<Rightarrow> bool" where
  "isDigit c = (48 \<le> (of_char c :: nat) \<and> (of_char c :: nat) \<le> 57)"

definition digitVal :: "char \<Rightarrow> nat" where
  "digitVal c = of_char c - 48"

fun splitOn :: "char \<Rightarrow> string \<Rightarrow> string list" where
  "splitOn d [] = [[]]"
| "splitOn d (c # cs) =
     (if c = d then [] # splitOn d cs
      else (case splitOn d cs of [] \<Rightarrow> [[c]] | p # ps \<Rightarrow> (c # p) # ps))"

definition parsePart :: "string \<Rightarrow> nat option" where
  "parsePart s =
     (if s = [] \<or> \<not> list_all isDigit s \<or> (1 < length s \<and> hd s = CHR ''0'') then None
      else (let n = foldl (\<lambda>n c. 10 * n + digitVal c) 0 s
            in if n \<le> 255 then Some n else None))"

definition IPv4_parse :: "string \<Rightarrow> exn + ipv4" where
  "IPv4_parse s =
     (let parts = map parsePart (splitOn (CHR ''.'') s)
      in if length parts = 4 \<and> list_all (\<lambda>p. p \<noteq> None) parts
         then Inr (map the parts) else Inl ParseError)"

text \<open>\<open>ipaddr.IPv4.isValid\<close>, with which \<open>getPrivateIps\<close> filters the addresses of the host.\<close>

definition isValid :: "string \<Rightarrow> bool" where
  "isValid s = (case IPv4_parse s of Inl e \<Rightarrow> False | Inr ip \<Rightarrow> True)"

text \<open>
  The library's \<open>matchCIDR(first, second, partSize, cidrBits)\<close> compares the two addresses
  part by part while \<open>cidrBits\<close> is positive: the parts shifted right by
  \<open>max 0 (partSize - cidrBits)\<close> must agree, then \<open>cidrBits\<close> drops by \<open>partSize\<close>. The
  recursion follows the part index along both lists; past their end both reads are
  \<open>undefined\<close>, which shift to 0 and agree.
\<close>

fun matchCIDR :: "nat list \<Rightarrow> nat list \<Rightarrow> nat \<Rightarrow> int \<Rightarrow> bool" where
  "matchCIDR (a # as) (b # bs) partSize cidrBits =
     (if 0 < cidrBits
      then (let shift = nat (max 0 (int partSize - cidrBits))
            in if a div 2 ^ shift \<noteq> b div 2 ^ shift then False
               else matchCIDR as bs partSize (cidrBits - int partSize))
      else True)"
| "matchCIDR _ _ partSize cidrBits = True"

definition IPv4_match :: "ipv4 \<Rightarrow> ipv4 \<Rightarrow> int \<Rightarrow> bool" where
  "IPv4_match ip other cidrRange = matchCIDR ip other 8 cidrRange"

subsection \<open>longestPrefixMatch and filterRouterIps\<close>

definition ROUTER_IPS :: "string list" where
  "ROUTER_IPS = [''192.168.1.1'', ''192.168.2.1'', ''192.168.11.1'',
     ''192.168.0.1'', ''192.168.0.30'', ''192.168.0.50'', ''192.168.20.1'',
     ''192.168.30.1'', ''192.168.62.1'', ''192.168.100.1'', ''192.168.102.1'',
     ''192.168.1.254'', ''192.168.10.1'', ''192.168.123.254'', ''192.168.4.1'',
     ''10.0.1.1'', ''10.1.1.1'', ''10.0.0.13'', ''10.0.0.2'', ''10.0.0.138'']"

text \<open>
  The inner loop, \<open>for (mask = 1; mask < 32; mask++)\<close>: at the first mask that does not
  match it pushes \<open>mask - 1\<close> and breaks (\<open>Some\<close>); when every mask from 1 to 31 matches it
  ends without a push (\<open>None\<close>). The loop variable \<open>mask\<close> is written \<open>mask'\<close>.
\<close>

function maskLoop :: "ipv4 \<Rightarrow> ipv4 \<Rightarrow> int \<Rightarrow> int option" where
  "maskLoop ip matchIp mask' =
     (if mask' < 32
      then (if \<not> IPv4_match ip matchIp mask' then Some (mask' - 1)
            else maskLoop ip matchIp (mask' + 1))
      else None)"
  by pat_completeness auto
termination
  by (relation "measure (\<lambda>(ip, matchIp, mask'). nat (32 - mask'))") auto

text \<open>The outer loop over \<open>ipList\<close>, with the array \<open>prefixMatches\<close> it fills.\<close>

fun ipLoop :: "string list \<Rightarrow> ipv4 \<Rightarrow> int list \<Rightarrow> exn + int list" where
  "ipLoop [] matchIp prefixMatches = Inr prefixMatches"
| "ipLoop (s # rest) matchIp prefixMatches =
     (case IPv4_parse s of
        Inl e \<Rightarrow> Inl e
      | Inr ip \<Rightarrow>
          ipLoop rest matchIp
            (case maskLoop ip matchIp 1 of
               Some m \<Rightarrow> prefixMatches @ [m]
             | None \<Rightarrow> prefixMatches))"

definition longestPrefixMatch :: "string list \<Rightarrow> string \<Rightarrow> exn + string option" where
  "longestPrefixMatch ipList matchIp =
     (case IPv4_parse matchIp of
        Inl e \<Rightarrow> Inl e
      | Inr m \<Rightarrow>
          (case ipLoop ipList m [] of
             Inl e \<Rightarrow> Inl e
           | Inr prefixMatches \<Rightarrow>
               (let maxIndex = indexOf (map Num prefixMatches) (Math_max prefixMatches)
                in Inr (arrayGet ipList maxIndex))))"

fun filterRouterIps_loop :: "string list \<Rightarrow> string option list \<Rightarrow> exn + string option list" where
  "filterRouterIps_loop [] routerIps = Inr routerIps"
| "filterRouterIps_loop (privateIp # rest) routerIps =
     (case longestPrefixMatch ROUTER_IPS privateIp of
        Inl e \<Rightarrow> Inl e
      | Inr r \<Rightarrow> filterRouterIps_loop rest (routerIps @ [r]))"

definition filterRouterIps :: "string list \<Rightarrow> exn + string option list" where
  "filterRouterIps privateIps = filterRouterIps_loop privateIps []"

text \<open>
  The shared prefix length of two addresses, as the specification words it: the number
  of leading bits, most significant first, on which the 32-bit addresses agree.
\<close>

definition octetBits :: "nat \<Rightarrow> bool list" where
  "octetBits n = map (\<lambda>k. odd (n div 2 ^ (7 - k))) [0..<8]"

definition ipBits :: "ipv4 \<Rightarrow> bool list" where
  "ipBits ip = concat (map octetBits ip)"

fun commonPrefix :: "'a list \<Rightarrow> 'a list \<Rightarrow> nat" where
  "commonPrefix (x # xs) (y # ys) = (if x = y then Suc (commonPrefix xs ys) else 0)"
| "commonPrefix _ _ = 0"

definition sharedPrefixLen :: "ipv4 \<Rightarrow> ipv4 \<Rightarrow> nat" where
  "sharedPrefixLen a b = commonPrefix (ipBits a) (ipBits b)"

subsection \<open>createArrayBuffer\<close>

text \<open>
  The buffer is the list of its bytes. A row of the matrix is the array
  \<open>[bits, byteOffset, value]\<close>. \<open>DataView.setInt8\<close>, \<open>setInt16\<close> and \<open>setInt32\<close> (called
  with \<open>littleEndian = false\<close>) reduce the value modulo 2 to the width and store its bytes,
  most significant first; they throw a \<open>RangeError\<close> when the field does not lie inside
  the buffer. Whatever the rows do, what \<open>console.error\<close> has printed stays printed, so
  the result pairs the console's lines with the outcome. The size \<open>bytes\<close> is a natural
  number (\<open>new ArrayBuffer\<close> refuses a negative one), offsets and values are integers.
\<close>

type_synonym byte = "8 word"

type_synonym row = "int \<times> int \<times> int"

fun bigEndian :: "nat \<Rightarrow> int \<Rightarrow> byte list" where
  "bigEndian 0 v = []"
| "bigEndian (Suc n) v = word_of_int (v div 256 ^ n) # bigEndian n v"

fun writeBytes :: "byte list \<Rightarrow> nat \<Rightarrow> byte list \<Rightarrow> byte list" where
  "writeBytes view i [] = view"
| "writeBytes view i (b # bs) = writeBytes (view[i := b]) (Suc i) bs"

definition setInt :: "nat \<Rightarrow> byte list \<Rightarrow> int \<Rightarrow> int \<Rightarrow> exn + byte list" where
  "setInt n view byteOffset v =
     (if byteOffset < 0 \<or> int (length view) < byteOffset + int n then Inl RangeError
      else Inr (writeBytes view (nat byteOffset) (bigEndian n v)))"

definition setInt8 :: "byte list \<Rightarrow> int \<Rightarrow> int \<Rightarrow> exn + byte list" where
  "setInt8 = setInt 1"

definition setInt16 :: "byte list \<Rightarrow> int \<Rightarrow> int \<Rightarrow> exn + byte list" where
  "setInt16 = setInt 2"

definition setInt32 :: "byte list \<Rightarrow> int \<Rightarrow> int \<Rightarrow> exn + byte list" where
  "setInt32 = setInt 4"

definition invalidParameters :: string where
  "invalidParameters = ''Invalid parameters to createArrayBuffer''"

fun writeRows :: "row list \<Rightarrow> string list \<Rightarrow> byte list \<Rightarrow> string list \<times> (exn + byte list)" where
  "writeRows [] console view = (console, Inr view)"
| "writeRows ((bits, byteOffset, v) # rest) console view =
     (if bits = 8 then
        (case setInt8 view byteOffset v of
           Inl e \<Rightarrow> (console, Inl e)
         | Inr view' \<Rightarrow> writeRows rest console view')
      else if bits = 16 then
        (case setInt16 view byteOffset v of
           Inl e \<Rightarrow> (console, Inl e)
         | Inr view' \<Rightarrow> writeRows rest console view')
      else if bits = 32 then
        (case setInt32 view byteOffset v of
           Inl e \<Rightarrow> (console, Inl e)
         | Inr view' \<Rightarrow> writeRows rest console view')
      else writeRows rest (console @ [invalidParameters]) view)"

definition createArrayBuffer :: "nat \<Rightarrow> row list \<Rightarrow> string list \<times> (exn + byte list)" where
  "createArrayBuffer bytes matrix = writeRows matrix [] (replicate bytes 0)"

text \<open>
  Modelled from the spec: the decoder is not among the source files. The specification
  describes it as the same addressing scheme applied to read rather than write at each
  offset and width, that is \<open>DataView.getInt8\<close>, \<open>getInt16\<close> and \<open>getInt32\<close> with big-endian
  byte order for the signed read that mirrors \<open>setInt\<close>, and \<open>getUint8\<close>, \<open>getUint16\<close> and
  \<open>getUint32\<close> for the unsigned one.
\<close>

definition fromBigEndian :: "byte list \<Rightarrow> int" where
  "fromBigEndian bs = foldl (\<lambda>acc b. 256 * acc + uint b) 0 bs"

definition getUint :: "nat \<Rightarrow> byte list \<Rightarrow> int \<Rightarrow> exn + int" where
  "getUint n view byteOffset =
     (if byteOffset < 0 \<or> int (length view) < byteOffset + int n then Inl RangeError
      else Inr (fromBigEndian (take n (drop (nat byteOffset) view))))"

definition getInt :: "nat \<Rightarrow> byte list \<Rightarrow> int \<Rightarrow> exn + int" where
  "getInt n view byteOffset =
     (case getUint n view byteOffset of
        Inl e \<Rightarrow> Inl e
      | Inr u \<Rightarrow> Inr (if 2 ^ (8 * n - 1) \<le> u then u - 2 ^ (8 * n) else u))"

definition readSigned :: "byte list \<Rightarrow> int \<Rightarrow> int \<Rightarrow> exn + int" where
  "readSigned view bits byteOffset =
     (if bits = 8 then getInt 1 view byteOffset
      else if bits = 16 then getInt 2 view byteOffset
      else if bits = 32 then getInt 4 view byteOffset
      else Inl (Thrown invalidParameters))"

definition readUnsigned :: "byte list \<Rightarrow> int \<Rightarrow> int \<Rightarrow> exn + int" where
  "readUnsigned view bits byteOffset =
     (if bits = 8 then getUint 1 view byteOffset
      else if bits = 16 then getUint 2 view byteOffset
      else if bits = 32 then getUint 4 view byteOffset
      else Inl (Thrown invalidParameters))"

text \<open>
  The valid field-spec lists of the specification: every width is 8, 16 or 32, every
  field lies inside the buffer, and no two rows share a byte.
\<close>

definition validWidth :: "row \<Rightarrow> bool" where
  "validWidth r = (case r of (bits, byteOffset, v) \<Rightarrow> bits = 8 \<or> bits = 16 \<or> bits = 32)"

definition fieldBytes :: "row \<Rightarrow> nat" where
  "fieldBytes r = (case r of (bits, byteOffset, v) \<Rightarrow> nat (bits div 8))"

definition inBounds :: "nat \<Rightarrow> row \<Rightarrow> bool" where
  "inBounds bytes r =
     (case r of (bits, byteOffset, v) \<Rightarrow>
        0 \<le> byteOffset \<and> byteOffset + bits div 8 \<le> int bytes)"

definition covers :: "row \<Rightarrow> nat \<Rightarrow> bool" where
  "covers r j =
     (case r of (bits, byteOffset, v) \<Rightarrow>
        byteOffset \<le> int j \<and> int j < byteOffset + bits div 8)"

definition disjointRows :: "row \<Rightarrow> row \<Rightarrow> bool" where
  "disjointRows r r' =
     (case (r, r') of ((bits, byteOffset, v), (bits', byteOffset', v')) \<Rightarrow>
        byteOffset + bits div 8 \<le> byteOffset' \<or> byteOffset' + bits' div 8 \<le> byteOffset)"

fun nonOverlapping :: "row list \<Rightarrow> bool" where
  "nonOverlapping [] = True"
| "nonOverlapping (r # rs) = (list_all (disjointRows r) rs \<and> nonOverlapping rs)"

definition validMatrix :: "nat \<Rightarrow> row list \<Rightarrow> bool" where
  "validMatrix bytes matrix =
     (list_all validWidth matrix \<and> list_all (inBounds bytes) matrix \<and> nonOverlapping matrix)"

text \<open>
  What a valid matrix leaves at the index \<open>j\<close> of a buffer that held \<open>view\<close>: the byte of
  the row that covers \<open>j\<close>, most significant byte of the value at the row's offset, or
  the old byte when no row covers \<open>j\<close>.
\<close>

definition fieldByte :: "row \<Rightarrow> nat \<Rightarrow> byte" where
  "fieldByte r j =
     (case r of (bits, byteOffset, v) \<Rightarrow>
        word_of_int (v div 256 ^ (nat (bits div 8) - 1 - (j - nat byteOffset))))"

fun expectedByte :: "row list \<Rightarrow> byte list \<Rightarrow> nat \<Rightarrow> byte" where
  "expectedByte [] view j = view ! j"
| "expectedByte (r # rs) view j = (if covers r j then fieldByte r j else expectedByte rs view j)"

text \<open>The values a signed, and an unsigned, field of the row's width can hold.\<close>

definition fitsSigned :: "row \<Rightarrow> bool" where
  "fitsSigned r =
     (case r of (bits, byteOffset, v) \<Rightarrow> - (2 ^ (nat bits - 1)) \<le> v \<and> v < 2 ^ (nat bits - 1))"

definition fitsUnsigned :: "row \<Rightarrow> bool" where
  "fitsUnsigned r = (case r of (bits, byteOffset, v) \<Rightarrow> 0 \<le> v \<and> v < 2 ^ nat bits)"

subsection \<open>countdownReject\<close>

text \<open>
  \<open>countdownReject(time, msg, callback)\<close> creates a promise and hands \<open>setTimeout\<close> a
  function with the delay \<open>time\<close>; nothing else holds the promise's \<open>reject\<close>. The model
  keeps what the event loop sees: the state of the promise, the trace of the calls made,
  a world the callback acts on, and the exception that escapes the timer function, if
  any. A callback is a function of the world that returns or throws; no callback is
  \<open>undefined\<close>.
\<close>

datatype promiseState = Pending | Fulfilled | Rejected string

datatype event = CallbackCalled | RejectCalled string

record 'w loopState =
  world :: 'w
  promise :: promiseState
  trace :: "event list"
  uncaught :: "exn option"

type_synonym 'w callback = "'w \<Rightarrow> exn + 'w"

text \<open>\<open>R(new Error(msg))\<close>: a pending promise is rejected, a settled one stays as it is.\<close>

definition reject :: "string \<Rightarrow> 'w loopState \<Rightarrow> 'w loopState" where
  "reject msg st =
     st\<lparr> promise := (if promise st = Pending then Rejected msg else promise st),
         trace := trace st @ [RejectCalled msg] \<rparr>"

text \<open>The function given to \<open>setTimeout\<close>.\<close>

definition timerFunction :: "string \<Rightarrow> 'w callback option \<Rightarrow> 'w loopState \<Rightarrow> 'w loopState" where
  "timerFunction msg callback st =
     (case callback of
        None \<Rightarrow> reject msg st
      | Some cb \<Rightarrow>
          (case cb (world st) of
             Inl e \<Rightarrow> st\<lparr> trace := trace st @ [CallbackCalled], uncaught := Some e \<rparr>
           | Inr w \<Rightarrow> reject msg (st\<lparr> world := w, trace := trace st @ [CallbackCalled] \<rparr>)))"

text \<open>
  The call itself: the new promise is pending and one timer is registered, with its
  delay. \<open>fireTimer\<close> is the event loop running that timer's function, once, when the
  delay has elapsed.
\<close>

definition countdownReject ::
  "int \<Rightarrow> string \<Rightarrow> 'w callback option \<Rightarrow> 'w \<Rightarrow> 'w loopState \<times> (int \<times> ('w loopState \<Rightarrow> 'w loopState))" where
  "countdownReject time msg callback w =
     (\<lparr> world = w, promise = Pending, trace = [], uncaught = None \<rparr>,
      (time, timerFunction msg callback))"

definition fireTimer :: "'w loopState \<times> (int \<times> ('w loopState \<Rightarrow> 'w loopState)) \<Rightarrow> 'w loopState" where
  "fireTimer p = (case p of (st, (delay, f)) \<Rightarrow> f st)"

subsection \<open>arrDiff and arrAdd\<close>

text \<open>
  Both walk their argument with \<open>forEach\<close> and push onto an accumulator (\<open>diff\<close>, and
  \<open>sum\<close>, written \<open>summ\<close> here).
\<close>

fun arrDiff_loop :: "'a list \<Rightarrow> 'a list \<Rightarrow> 'a list \<Rightarrow> 'a list" where
  "arrDiff_loop [] listB diff = diff"
| "arrDiff_loop (a # rest) listB diff =
     arrDiff_loop rest listB (if indexOf listB a = -1 then diff @ [a] else diff)"

definition arrDiff :: "'a list \<Rightarrow> 'a list \<Rightarrow> 'a list" where
  "arrDiff listA listB = arrDiff_loop listA listB []"

fun arrAdd_loop :: "'a list \<Rightarrow> 'a list \<Rightarrow> 'a list" where
  "arrAdd_loop [] summ = summ"
| "arrAdd_loop (a # rest) summ =
     arrAdd_loop rest (if indexOf summ a = -1 then summ @ [a] else summ)"

definition arrAdd :: "'a list \<Rightarrow> 'a list \<Rightarrow> 'a list" where
  "arrAdd listA listB = arrAdd_loop listB (arrAdd_loop listA [])"

text \<open>
  The order of first occurrence, as the specification words it: an element is kept where
  it is first seen and dropped from the rest.
\<close>

fun firstOccurrences :: "'a list \<Rightarrow> 'a list" where
  "firstOccurrences [] = []"
| "firstOccurrences (x # xs) = x # filter (\<lambda>y. y \<noteq> x) (firstOccurrences xs)"

section \<open>Properties\<close>

subsection \<open>indexOf\<close>

lemma indexOf_ge: "-1 \<le> indexOf xs x"
  by (induction xs) (auto simp: Let_def)

lemma indexOf_absent: "indexOf xs x = -1 \<longleftrightarrow> x \<notin> set xs"
proof (induction xs)
  case Nil
  show ?case by simp
next
  case (Cons y ys)
  have "-1 \<le> indexOf ys x" by (rule indexOf_ge)
  with Cons show ?case by (auto simp: Let_def)
qed

subsection \<open>arrAdd and arrDiff\<close>

lemma set_firstOccurrences: "set (firstOccurrences xs) = set xs"
  by (induction xs) auto

lemma distinct_firstOccurrences: "distinct (firstOccurrences xs)"
  by (induction xs) auto

lemma firstOccurrences_append:
  "firstOccurrences (xs @ ys) =
     firstOccurrences xs @ filter (\<lambda>y. y \<notin> set xs) (firstOccurrences ys)"
proof (induction xs)
  case Nil
  show ?case by simp
next
  case (Cons x xs)
  have "filter (\<lambda>y. y \<noteq> x) (filter (\<lambda>y. y \<notin> set xs) (firstOccurrences ys)) =
        filter (\<lambda>y. y \<notin> set (x # xs)) (firstOccurrences ys)"
    by (simp add: conj_commute)
  with Cons show ?case by simp
qed

text \<open>The loop of \<open>arrAdd\<close> appends to its accumulator what is new, in first-seen order.\<close>

lemma arrAdd_loop_eq:
  "arrAdd_loop xs acc = acc @ filter (\<lambda>y. y \<notin> set acc) (firstOccurrences xs)"
proof (induction xs arbitrary: acc)
  case Nil
  show ?case by simp
next
  case (Cons a rest)
  show ?case
  proof (cases "a \<in> set acc")
    case True
    have "filter (\<lambda>y. y \<notin> set acc) (filter (\<lambda>y. y \<noteq> a) (firstOccurrences rest)) =
          filter (\<lambda>y. y \<notin> set acc) (firstOccurrences rest)"
      using True by (auto intro: filter_cong)
    with True Cons show ?thesis by (simp add: indexOf_absent)
  next
    case False
    have "filter (\<lambda>y. y \<notin> set (acc @ [a])) (firstOccurrences rest) =
          filter (\<lambda>y. y \<notin> set acc) (filter (\<lambda>y. y \<noteq> a) (firstOccurrences rest))"
      by (auto intro: filter_cong)
    with False Cons show ?thesis by (simp add: indexOf_absent)
  qed
qed

lemma arrDiff_loop_eq:
  "arrDiff_loop xs listB diff = diff @ filter (\<lambda>a. a \<notin> set listB) xs"
  by (induction xs arbitrary: diff) (simp_all add: indexOf_absent)

text \<open>
  Claim C7. For all lists \<open>A\<close> and \<open>B\<close>, \<open>arrAdd A B\<close> holds the elements of \<open>A\<close> followed by
  the elements of \<open>B\<close> not already present, each exactly once, in the order of first
  occurrence in \<open>A\<close> then \<open>B\<close>: it is the list of first occurrences of \<open>A @ B\<close>, which is
  the first occurrences of \<open>A\<close> followed by those of \<open>B\<close> that are not in \<open>A\<close>; it has no
  duplicates, and its elements are those of \<open>A\<close> and \<open>B\<close>.
\<close>

theorem arrAdd_first_occurrences:
  "arrAdd A B = firstOccurrences (A @ B) \<and>
   arrAdd A B = firstOccurrences A @ filter (\<lambda>b. b \<notin> set A) (firstOccurrences B) \<and>
   distinct (arrAdd A B) \<and>
   set (arrAdd A B) = set A \<union> set B"
proof -
  have eq: "arrAdd A B = firstOccurrences (A @ B)"
    by (simp add: arrAdd_def arrAdd_loop_eq firstOccurrences_append set_firstOccurrences)
  have split: "arrAdd A B =
      firstOccurrences A @ filter (\<lambda>b. b \<notin> set A) (firstOccurrences B)"
    by (simp add: eq firstOccurrences_append)
  have d: "distinct (arrAdd A B)"
    unfolding eq by (rule distinct_firstOccurrences)
  have s: "set (arrAdd A B) = set A \<union> set B"
    unfolding eq by (simp add: set_firstOccurrences)
  from eq split d s show ?thesis by blast
qed

text \<open>
  Claim C8, as stated, asks that \<open>arrDiff A B\<close> has no duplicates. The loop pushes every
  element of \<open>A\<close> that is absent from \<open>B\<close> without looking at what it has pushed, so an
  element that occurs twice in \<open>A\<close> occurs twice in the result.
\<close>

theorem arrDiff_keeps_duplicates:
  "arrDiff [1, 1 :: int] [] = [1, 1] \<and> \<not> distinct (arrDiff [1, 1 :: int] [])"
  by (simp add: arrDiff_def)

text \<open>
  Claim C8, amended. For all lists \<open>A\<close> and \<open>B\<close>, \<open>arrDiff A B\<close> is \<open>A\<close> without the elements
  that occur in \<open>B\<close>, in the order of \<open>A\<close> and as often as they occur in \<open>A\<close>: its elements
  are exactly the elements of \<open>A\<close> absent from \<open>B\<close>, and it has no duplicates when \<open>A\<close> has
  none.
\<close>

theorem arrDiff_filter:
  "arrDiff A B = filter (\<lambda>a. a \<notin> set B) A \<and>
   set (arrDiff A B) = set A - set B \<and>
   (distinct A \<longrightarrow> distinct (arrDiff A B))"
  by (auto simp: arrDiff_def arrDiff_loop_eq)

theorem arrDiff_filter_witness:
  "distinct [3, 1, 2 :: int] \<and> arrDiff [3, 1, 2 :: int] [1] = [3, 2] \<and>
   distinct (arrDiff [3, 1, 2 :: int] [1])"
  using arrDiff_filter [of "[3, 1, 2 :: int]" "[1]"] by simp

subsection \<open>Mapping\<close>

text \<open>
  Claim C10. A mapping made by the constructor has \<open>externalPort\<close> equal to -1 and every
  other field (\<open>internalIp\<close>, \<open>internalPort\<close>, \<open>externalIp\<close>, \<open>lifetime\<close>, \<open>protocol\<close>,
  \<open>timeoutId\<close>, \<open>nonce\<close>, \<open>deleter\<close>, \<open>errInfo\<close>) unset.
\<close>

theorem new_Mapping_fields:
  "externalPort (new_Mapping :: 'd Mapping) = Some (-1) \<and>
   internalIp (new_Mapping :: 'd Mapping) = None \<and>
   internalPort (new_Mapping :: 'd Mapping) = None \<and>
   externalIp (new_Mapping :: 'd Mapping) = None \<and>
   lifetime (new_Mapping :: 'd Mapping) = None \<and>
   protocol (new_Mapping :: 'd Mapping) = None \<and>
   timeoutId (new_Mapping :: 'd Mapping) = None \<and>
   nonce (new_Mapping :: 'd Mapping) = None \<and>
   deleter (new_Mapping :: 'd Mapping) = None \<and>
   errInfo (new_Mapping :: 'd Mapping) = None"
  by (simp add: new_Mapping_def)

subsection \<open>countdownReject\<close>

text \<open>
  Claim C6, as stated, speaks of every supplied callback. The timer function calls the
  callback outside any \<open>try\<close>: when the callback throws (closing a socket that is already
  closed does), the exception leaves the timer function before \<open>reject\<close> is reached and
  the promise stays pending.
\<close>

theorem countdownReject_throwing_callback:
  "promise (fireTimer (countdownReject 5 ''timeout'' (Some (\<lambda>w. Inl (Thrown ''closed''))) ())) = Pending \<and>
   trace (fireTimer (countdownReject 5 ''timeout'' (Some (\<lambda>w. Inl (Thrown ''closed''))) ())) = [CallbackCalled] \<and>
   uncaught (fireTimer (countdownReject 5 ''timeout'' (Some (\<lambda>w. Inl (Thrown ''closed''))) ())) = Some (Thrown ''closed'')"
  by (simp add: fireTimer_def countdownReject_def timerFunction_def)

text \<open>
  Claim C6, amended. For every duration, message and supplied callback that returns
  normally, the promise of \<open>countdownReject\<close> is pending until its timer fires and is then
  rejected with exactly the message, the callback having been called exactly once,
  before the rejection: the trace is the call of the callback followed by the call of
  \<open>reject\<close>. With no callback the promise is rejected with the message all the same. A
  callback that throws has been called once, and the promise stays pending. The timer
  is registered with the given duration.
\<close>

theorem countdownReject_rejects:
  "(cb w = Inr w' \<longrightarrow>
      fireTimer (countdownReject time msg (Some cb) w) =
        \<lparr> world = w', promise = Rejected msg, trace = [CallbackCalled, RejectCalled msg],
          uncaught = None \<rparr>) \<and>
   (cb w = Inl e \<longrightarrow>
      fireTimer (countdownReject time msg (Some cb) w) =
        \<lparr> world = w, promise = Pending, trace = [CallbackCalled], uncaught = Some e \<rparr>) \<and>
   fireTimer (countdownReject time msg None w) =
        \<lparr> world = w, promise = Rejected msg, trace = [RejectCalled msg], uncaught = None \<rparr> \<and>
   fst (countdownReject time msg callback w) =
        \<lparr> world = w, promise = Pending, trace = [], uncaught = None \<rparr> \<and>
   fst (snd (countdownReject time msg callback w)) = time"
  by (simp add: fireTimer_def countdownReject_def timerFunction_def reject_def)

theorem countdownReject_rejects_witness:
  "(\<lambda>w::nat. Inr (Suc w) :: exn + nat) 0 = Inr 1 \<and>
   fireTimer (countdownReject 3 ''timeout'' (Some (\<lambda>w::nat. Inr (Suc w))) 0) =
     \<lparr> world = 1, promise = Rejected ''timeout'',
       trace = [CallbackCalled, RejectCalled ''timeout''], uncaught = None \<rparr> \<and>
   (\<lambda>w::nat. Inl (Thrown ''closed'') :: exn + nat) 0 = Inl (Thrown ''closed'') \<and>
   fireTimer (countdownReject 3 ''timeout'' (Some (\<lambda>w::nat. Inl (Thrown ''closed''))) 0) =
     \<lparr> world = 0, promise = Pending, trace = [CallbackCalled],
       uncaught = Some (Thrown ''closed'') \<rparr>"
  using countdownReject_rejects [of "\<lambda>w::nat. Inr (Suc w)" 0 1 3 "''timeout''"]
    countdownReject_rejects [of "\<lambda>w::nat. Inl (Thrown ''closed'')" 0 _ 3 "''timeout''"
      "Thrown ''closed''"]
  by simp

subsection \<open>createArrayBuffer\<close>

lemma length_bigEndian: "length (bigEndian n v) = n"
  by (induction n) simp_all

lemma nth_bigEndian: "k < n \<Longrightarrow> bigEndian n v ! k = word_of_int (v div 256 ^ (n - 1 - k))"
proof (induction n arbitrary: k)
  case 0
  then show ?case by simp
next
  case (Suc n)
  show ?case
  proof (cases k)
    case 0
    then show ?thesis by simp
  next
    case (Suc k')
    with Suc.prems have "k' < n" by simp
    from Suc.IH [OF this] Suc show ?thesis by simp
  qed
qed

lemma length_writeBytes: "length (writeBytes view i bs) = length view"
  by (induction bs arbitrary: view i) simp_all

lemma nth_writeBytes:
  "i + length bs \<le> length view \<Longrightarrow>
   writeBytes view i bs ! j = (if i \<le> j \<and> j < i + length bs then bs ! (j - i) else view ! j)"
proof (induction bs arbitrary: view i)
  case Nil
  show ?case by auto
next
  case (Cons b bs)
  from Cons.prems have len: "Suc i + length bs \<le> length (view[i := b])" and i: "i < length view"
    by simp_all
  show ?case
  proof (cases "j = i")
    case True
    with Cons.IH [OF len] i show ?thesis by simp
  next
    case False
    with Cons.IH [OF len] show ?thesis
      by (auto simp: nth_Cons' )
  qed
qed

lemma setInt_ok:
  "0 \<le> byteOffset \<Longrightarrow> byteOffset + int n \<le> int (length view) \<Longrightarrow>
   setInt n view byteOffset v = Inr (writeBytes view (nat byteOffset) (bigEndian n v))"
  by (simp add: setInt_def)

text \<open>A row of valid width is one call of \<open>setInt\<close> with the row's number of bytes.\<close>

lemma writeRows_valid:
  "validWidth (bits, byteOffset, v) \<Longrightarrow>
   writeRows ((bits, byteOffset, v) # rest) console view =
     (case setInt (nat (bits div 8)) view byteOffset v of
        Inl e \<Rightarrow> (console, Inl e)
      | Inr view' \<Rightarrow> writeRows rest console view')"
  by (auto simp: validWidth_def setInt8_def setInt16_def setInt32_def)

lemma writeRows_invalid:
  "\<not> validWidth (bits, byteOffset, v) \<Longrightarrow>
   writeRows ((bits, byteOffset, v) # rest) console view =
     writeRows rest (console @ [invalidParameters]) view"
  by (simp add: validWidth_def)

lemma writeRows_in_bounds:
  "validWidth r \<Longrightarrow> inBounds (length view) r \<Longrightarrow>
   writeRows (r # rest) console view =
     writeRows rest console
       (writeBytes view (nat (fst (snd r))) (bigEndian (fieldBytes r) (snd (snd r))))"
proof -
  obtain bits byteOffset v where r: "r = (bits, byteOffset, v)"
    by (cases r) auto
  assume w: "validWidth r" and b: "inBounds (length view) r"
  from w r have n: "int (nat (bits div 8)) = bits div 8"
    by (auto simp: validWidth_def)
  from b r n have set: "setInt (nat (bits div 8)) view byteOffset v =
      Inr (writeBytes view (nat byteOffset) (bigEndian (nat (bits div 8)) v))"
    by (intro setInt_ok) (simp_all add: inBounds_def)
  from w r have "validWidth (bits, byteOffset, v)" by simp
  from writeRows_valid [OF this, of rest console view] set
  have "writeRows ((bits, byteOffset, v) # rest) console view =
      writeRows rest console (writeBytes view (nat byteOffset) (bigEndian (nat (bits div 8)) v))"
    by (simp del: writeRows.simps)
  with r show ?thesis
    by (simp add: fieldBytes_def del: writeRows.simps)
qed

lemma covers_iff:
  "validWidth r \<Longrightarrow> 0 \<le> fst (snd r) \<Longrightarrow>
   covers r j \<longleftrightarrow> nat (fst (snd r)) \<le> j \<and> j < nat (fst (snd r)) + fieldBytes r"
  by (cases r) (auto simp: covers_def fieldBytes_def validWidth_def)

lemma disjoint_covers:
  "disjointRows r r' \<Longrightarrow> covers r j \<Longrightarrow> \<not> covers r' j"
  by (cases r; cases r') (auto simp: disjointRows_def covers_def)

lemma expectedByte_uncovered:
  "list_all (\<lambda>r. \<not> covers r j) rs \<Longrightarrow> expectedByte rs view j = view ! j"
  by (induction rs) simp_all

lemma expectedByte_cong:
  "view' ! j = view ! j \<Longrightarrow> expectedByte rs view' j = expectedByte rs view j"
  by (induction rs) simp_all

lemma writeRows_expected:
  "list_all validWidth matrix \<Longrightarrow> list_all (inBounds (length view)) matrix \<Longrightarrow>
   nonOverlapping matrix \<Longrightarrow>
   \<exists>buf. writeRows matrix console view = (console, Inr buf) \<and> length buf = length view \<and>
         (\<forall>j < length view. buf ! j = expectedByte matrix view j)"
proof (induction matrix arbitrary: view)
  case Nil
  show ?case by simp
next
  case (Cons r rs)
  define view' where
    "view' = writeBytes view (nat (fst (snd r))) (bigEndian (fieldBytes r) (snd (snd r)))"
  from Cons.prems have w: "validWidth r" and b: "inBounds (length view) r"
    and d: "list_all (disjointRows r) rs"
    by simp_all
  have len: "length view' = length view"
    by (simp add: view'_def length_writeBytes)
  have step: "writeRows (r # rs) console view = writeRows rs console view'"
    using w b by (simp add: writeRows_in_bounds view'_def)
  from Cons.prems len have "list_all validWidth rs" "list_all (inBounds (length view')) rs"
    "nonOverlapping rs"
    by simp_all
  from Cons.IH [OF this] obtain buf where
    buf: "writeRows rs console view' = (console, Inr buf)" "length buf = length view'"
      "\<forall>j < length view'. buf ! j = expectedByte rs view' j"
    by blast
  from b have off: "0 \<le> fst (snd r)"
    and fits: "nat (fst (snd r)) + fieldBytes r \<le> length view"
    using w by (cases r; auto simp: inBounds_def fieldBytes_def validWidth_def)+
  have nth': "view' ! j = (if covers r j then fieldByte r j else view ! j)" for j
  proof -
    have "view' ! j =
        (if nat (fst (snd r)) \<le> j \<and> j < nat (fst (snd r)) + fieldBytes r
         then bigEndian (fieldBytes r) (snd (snd r)) ! (j - nat (fst (snd r))) else view ! j)"
      unfolding view'_def using fits by (subst nth_writeBytes) (simp_all add: length_bigEndian)
    also have "\<dots> = (if covers r j then fieldByte r j else view ! j)"
      using w off by (cases r) (auto simp: covers_iff nth_bigEndian fieldByte_def fieldBytes_def)
    finally show ?thesis .
  qed
  have "buf ! j = expectedByte (r # rs) view j" if j: "j < length view" for j
  proof (cases "covers r j")
    case True
    from d True have "list_all (\<lambda>r'. \<not> covers r' j) rs"
      by (auto simp: list_all_iff dest: disjoint_covers)
    then have "expectedByte rs view' j = view' ! j"
      by (rule expectedByte_uncovered)
    with buf j len True nth' show ?thesis by simp
  next
    case False
    with nth' have "view' ! j = view ! j" by simp
    then have "expectedByte rs view' j = expectedByte rs view j"
      by (rule expectedByte_cong)
    with buf j len False show ?thesis by simp
  qed
  with step buf len show ?case by simp
qed


lemma expectedByte_member:
  "nonOverlapping matrix \<Longrightarrow> r \<in> set matrix \<Longrightarrow> covers r j \<Longrightarrow>
   expectedByte matrix view j = fieldByte r j"
proof (induction matrix)
  case Nil
  then show ?case by simp
next
  case (Cons r0 rs)
  show ?case
  proof (cases "r = r0")
    case True
    with Cons.prems show ?thesis by simp
  next
    case False
    with Cons.prems have r: "r \<in> set rs" and d: "disjointRows r0 r"
      by (auto simp: list_all_iff)
    from d Cons.prems(3) have "\<not> covers r0 j"
      by (cases r0; cases r) (auto simp: disjointRows_def covers_def)
    with Cons r show ?thesis by simp
  qed
qed

lemma expectedByte_set:
  assumes "nonOverlapping m" and "nonOverlapping m'" and "set m = set m'"
  shows "expectedByte m view j = expectedByte m' view j"
proof (cases "\<exists>r \<in> set m. covers r j")
  case True
  then obtain r where r: "r \<in> set m" "covers r j" by blast
  with assms have "expectedByte m view j = fieldByte r j" "expectedByte m' view j = fieldByte r j"
    by (simp_all add: expectedByte_member)
  then show ?thesis by simp
next
  case False
  with assms have "list_all (\<lambda>r. \<not> covers r j) m" "list_all (\<lambda>r. \<not> covers r j) m'"
    by (simp_all add: list_all_iff)
  then show ?thesis by (simp add: expectedByte_uncovered)
qed

text \<open>Rows that do not overlap are distinct and pairwise disjoint, in any order.\<close>

lemma not_disjoint_self: "validWidth r \<Longrightarrow> \<not> disjointRows r r"
  by (cases r) (auto simp: validWidth_def disjointRows_def)

lemma disjointRows_sym: "disjointRows r r' \<Longrightarrow> disjointRows r' r"
  by (cases r; cases r') (auto simp: disjointRows_def)

lemma nonOverlapping_iff:
  "list_all validWidth rs \<Longrightarrow>
   nonOverlapping rs \<longleftrightarrow>
     distinct rs \<and> (\<forall>r \<in> set rs. \<forall>r' \<in> set rs. r \<noteq> r' \<longrightarrow> disjointRows r r')"
proof (induction rs)
  case Nil
  show ?case by simp
next
  case (Cons r rs)
  then have w: "validWidth r" and IH: "nonOverlapping rs \<longleftrightarrow>
     distinct rs \<and> (\<forall>r \<in> set rs. \<forall>r' \<in> set rs. r \<noteq> r' \<longrightarrow> disjointRows r r')"
    by simp_all
  show ?case
  proof
    assume "nonOverlapping (r # rs)"
    then have d: "\<forall>r' \<in> set rs. disjointRows r r'" and n: "nonOverlapping rs"
      by (simp_all add: list_all_iff)
    from d w have "r \<notin> set rs"
      using not_disjoint_self by blast
    with d n IH show "distinct (r # rs) \<and>
        (\<forall>a \<in> set (r # rs). \<forall>r' \<in> set (r # rs). a \<noteq> r' \<longrightarrow> disjointRows a r')"
      by (auto dest: disjointRows_sym)
  next
    assume a: "distinct (r # rs) \<and>
        (\<forall>a \<in> set (r # rs). \<forall>r' \<in> set (r # rs). a \<noteq> r' \<longrightarrow> disjointRows a r')"
    then have "\<forall>r' \<in> set rs. disjointRows r r'"
      by auto
    moreover from a IH have "nonOverlapping rs"
      by auto
    ultimately show "nonOverlapping (r # rs)"
      by (simp add: list_all_iff)
  qed
qed

lemma validMatrix_mset:
  assumes "validMatrix bytes matrix" and "mset matrix' = mset matrix"
  shows "validMatrix bytes matrix'"
proof -
  from assms(2) have s: "set matrix' = set matrix"
    by (rule mset_eq_setD)
  from assms(2) have d: "distinct matrix' \<longleftrightarrow> distinct matrix"
    by (rule mset_eq_imp_distinct_iff)
  from assms(1) s have w: "list_all validWidth matrix" "list_all validWidth matrix'"
    and b: "list_all (inBounds bytes) matrix'"
    by (simp_all add: validMatrix_def list_all_iff)
  from assms(1) have "nonOverlapping matrix"
    by (simp add: validMatrix_def)
  with w s d have "nonOverlapping matrix'"
    by (simp add: nonOverlapping_iff)
  with w b show ?thesis
    by (simp add: validMatrix_def)
qed

lemma createArrayBuffer_expected:
  assumes "validMatrix bytes matrix"
  shows "\<exists>buf. createArrayBuffer bytes matrix = ([], Inr buf) \<and> length buf = bytes \<and>
           (\<forall>j < bytes. buf ! j = expectedByte matrix (replicate bytes 0) j)"
proof -
  from assms have "list_all validWidth matrix"
    "list_all (inBounds (length (replicate bytes (0 :: byte)))) matrix" "nonOverlapping matrix"
    by (simp_all add: validMatrix_def)
  from writeRows_expected [OF this, of "[]"] show ?thesis
    by (simp add: createArrayBuffer_def)
qed

lemma field_in_buffer:
  assumes "validMatrix bytes matrix" and "(bits, byteOffset, v) \<in> set matrix"
  shows "0 \<le> byteOffset" and "nat byteOffset + nat (bits div 8) \<le> bytes"
    and "bits = 8 \<or> bits = 16 \<or> bits = 32"
proof -
  from assms have w: "validWidth (bits, byteOffset, v)" and b: "inBounds bytes (bits, byteOffset, v)"
    by (auto simp: validMatrix_def list_all_iff)
  from w show "bits = 8 \<or> bits = 16 \<or> bits = 32"
    by (simp add: validWidth_def)
  from b show "0 \<le> byteOffset"
    by (simp add: inBounds_def)
  from w b show "nat byteOffset + nat (bits div 8) \<le> bytes"
    by (auto simp: inBounds_def validWidth_def)
qed

lemma field_bytes:
  assumes v: "validMatrix bytes matrix" and r: "(bits, byteOffset, v) \<in> set matrix"
    and buf: "\<forall>j < bytes. buf ! j = expectedByte matrix (replicate bytes 0) j"
    and k: "k < nat (bits div 8)"
  shows "buf ! (nat byteOffset + k) = word_of_int (v div 256 ^ (nat (bits div 8) - 1 - k))"
proof -
  note f = field_in_buffer [OF v r]
  from f k have c: "covers (bits, byteOffset, v) (nat byteOffset + k)"
    by (auto simp: covers_def)
  from v have "nonOverlapping matrix"
    by (simp add: validMatrix_def)
  from expectedByte_member [OF this r c]
  have "expectedByte matrix (replicate bytes 0) (nat byteOffset + k) =
      fieldByte (bits, byteOffset, v) (nat byteOffset + k)" .
  moreover from f k have "nat byteOffset + k < bytes" by simp
  ultimately show ?thesis
    using buf by (simp add: fieldByte_def)
qed

text \<open>
  Claim C4. For every size and every matrix whose rows have a width of 8, 16 or 32 and
  offsets that lie inside the buffer and do not overlap, \<open>createArrayBuffer\<close> returns a
  buffer of the given size (and prints nothing): byte \<open>k\<close> of each field, counted from
  the row's offset, is the value shifted right by the \<open>8 * (n - 1 - k)\<close> bits of the less
  significant bytes, which is big-endian order; every byte that no row covers is zero;
  and every reordering of the rows gives the same buffer.
\<close>

theorem createArrayBuffer_big_endian:
  assumes "validMatrix bytes matrix"
  shows "\<exists>buf. createArrayBuffer bytes matrix = ([], Inr buf) \<and> length buf = bytes \<and>
     (\<forall>(bits, byteOffset, v) \<in> set matrix. \<forall>k < nat (bits div 8).
        buf ! (nat byteOffset + k) = word_of_int (v div 256 ^ (nat (bits div 8) - 1 - k))) \<and>
     (\<forall>j < bytes. (\<forall>r \<in> set matrix. \<not> covers r j) \<longrightarrow> buf ! j = 0) \<and>
     (\<forall>matrix'. mset matrix' = mset matrix \<longrightarrow>
        createArrayBuffer bytes matrix' = ([], Inr buf))"
proof -
  from createArrayBuffer_expected [OF assms] obtain buf where
    run: "createArrayBuffer bytes matrix = ([], Inr buf)" and len: "length buf = bytes"
    and nth: "\<forall>j < bytes. buf ! j = expectedByte matrix (replicate bytes 0) j"
    by blast
  have fields: "\<forall>(bits, byteOffset, v) \<in> set matrix. \<forall>k < nat (bits div 8).
        buf ! (nat byteOffset + k) = word_of_int (v div 256 ^ (nat (bits div 8) - 1 - k))"
    using field_bytes [OF assms _ nth] by blast
  have zero: "\<forall>j < bytes. (\<forall>r \<in> set matrix. \<not> covers r j) \<longrightarrow> buf ! j = 0"
  proof (intro allI impI)
    fix j
    assume j: "j < bytes" and "\<forall>r \<in> set matrix. \<not> covers r j"
    then have "list_all (\<lambda>r. \<not> covers r j) matrix"
      by (simp add: list_all_iff)
    then have "expectedByte matrix (replicate bytes 0) j = replicate bytes 0 ! j"
      by (rule expectedByte_uncovered)
    with nth j show "buf ! j = 0" by simp
  qed
  have order: "\<forall>matrix'. mset matrix' = mset matrix \<longrightarrow>
        createArrayBuffer bytes matrix' = ([], Inr buf)"
  proof (intro allI impI)
    fix matrix'
    assume m: "mset matrix' = mset matrix"
    with assms have v': "validMatrix bytes matrix'"
      by (rule validMatrix_mset)
    from createArrayBuffer_expected [OF v'] obtain buf' where
      run': "createArrayBuffer bytes matrix' = ([], Inr buf')" and len': "length buf' = bytes"
      and nth': "\<forall>j < bytes. buf' ! j = expectedByte matrix' (replicate bytes 0) j"
      by blast
    from m have "set matrix' = set matrix"
      by (rule mset_eq_setD)
    with assms v' have "expectedByte matrix' (replicate bytes 0) j =
        expectedByte matrix (replicate bytes 0) j" for j
      by (intro expectedByte_set) (simp_all add: validMatrix_def)
    with nth nth' have "\<forall>j < bytes. buf' ! j = buf ! j"
      by simp
    with len len' have "buf' = buf"
      by (intro nth_equalityI) simp_all
    with run' show "createArrayBuffer bytes matrix' = ([], Inr buf)"
      by simp
  qed
  from run len fields zero order show ?thesis
    by blast
qed

lemma createArrayBuffer_example:
  "createArrayBuffer 4 [(16, 2, 258), (8, 0, -1)] = ([], Inr [255, 0, 1, 2])"
  by code_simp

theorem createArrayBuffer_big_endian_witness:
  "validMatrix 4 [(16, 2, 258), (8, 0, -1)] \<and>
   createArrayBuffer 4 [(16, 2, 258), (8, 0, -1)] = ([], Inr [255, 0, 1, 2]) \<and>
   createArrayBuffer 4 [(8, 0, -1), (16, 2, 258)] = ([], Inr [255, 0, 1, 2])"
proof -
  have v: "validMatrix 4 [(16, 2, 258), (8, 0, -1)]"
    by (simp add: validMatrix_def validWidth_def inBounds_def disjointRows_def)
  have m: "mset [(8, 0, -1), (16, 2, 258 :: int)] = mset [(16, 2, 258), (8 :: int, 0 :: int, -1)]"
    by simp
  from createArrayBuffer_big_endian [OF v] createArrayBuffer_example m v show ?thesis
    by metis
qed

text \<open>The loop, one row at a time: a row of valid width is written or throws, any other row prints.\<close>

lemma writeRows_step:
  "writeRows (r # rest) console view =
     (if validWidth r
      then (case setInt (fieldBytes r) view (fst (snd r)) (snd (snd r)) of
              Inl e \<Rightarrow> (console, Inl e)
            | Inr view' \<Rightarrow> writeRows rest console view')
      else writeRows rest (console @ [invalidParameters]) view)"
proof -
  obtain bits byteOffset v where r: "r = (bits, byteOffset, v)"
    by (cases r) auto
  show ?thesis
  proof (cases "validWidth r")
    case True
    then have "validWidth (bits, byteOffset, v)" by (simp add: r)
    from writeRows_valid [OF this] True show ?thesis
      by (simp add: r fieldBytes_def del: writeRows.simps)
  next
    case False
    then have "\<not> validWidth (bits, byteOffset, v)" by (simp add: r)
    from writeRows_invalid [OF this] False show ?thesis
      by (simp add: r del: writeRows.simps)
  qed
qed

lemma writeRows_append:
  "writeRows (pre @ post) console view =
     (case writeRows pre console view of
        (c, Inl e) \<Rightarrow> (c, Inl e)
      | (c, Inr view') \<Rightarrow> writeRows post c view')"
proof (induction pre arbitrary: console view)
  case Nil
  show ?case by simp
next
  case (Cons r pre)
  show ?case
  proof (cases "validWidth r")
    case False
    then show ?thesis
      by (simp add: writeRows_step Cons del: writeRows.simps)
  next
    case True
    show ?thesis
    proof (cases "setInt (fieldBytes r) view (fst (snd r)) (snd (snd r))")
      case (Inl e)
      with True show ?thesis
        by (simp add: writeRows_step del: writeRows.simps)
    next
      case (Inr view')
      with True show ?thesis
        by (simp add: writeRows_step Cons del: writeRows.simps)
    qed
  qed
qed

lemma writeRows_console:
  "\<exists>more. fst (writeRows rows console view) = console @ more"
proof (induction rows arbitrary: console view)
  case Nil
  show ?case by simp
next
  case (Cons r rows)
  show ?case
  proof (cases "validWidth r")
    case False
    from Cons [of "console @ [invalidParameters]" view] obtain more where
      "fst (writeRows rows (console @ [invalidParameters]) view) =
         (console @ [invalidParameters]) @ more"
      by blast
    with False have "fst (writeRows (r # rows) console view) =
        console @ (invalidParameters # more)"
      by (simp add: writeRows_step del: writeRows.simps)
    then show ?thesis by blast
  next
    case True
    show ?thesis
    proof (cases "setInt (fieldBytes r) view (fst (snd r)) (snd (snd r))")
      case (Inl e)
      with True have "fst (writeRows (r # rows) console view) = console @ []"
        by (simp add: writeRows_step del: writeRows.simps)
      then show ?thesis by blast
    next
      case (Inr view')
      with True have "writeRows (r # rows) console view = writeRows rows console view'"
        by (simp add: writeRows_step del: writeRows.simps)
      with Cons [of console view'] show ?thesis by simp
    qed
  qed
qed

lemma writeRows_outcome:
  "snd (writeRows rows console view) = snd (writeRows rows console' view)"
proof (induction rows arbitrary: console console' view)
  case Nil
  show ?case by simp
next
  case (Cons r rows)
  show ?case
  proof (cases "validWidth r")
    case False
    then have "writeRows (r # rows) console view =
        writeRows rows (console @ [invalidParameters]) view"
      and "writeRows (r # rows) console' view =
        writeRows rows (console' @ [invalidParameters]) view"
      by (simp_all add: writeRows_step del: writeRows.simps)
    with Cons [of "console @ [invalidParameters]" view "console' @ [invalidParameters]"]
    show ?thesis by simp
  next
    case True
    show ?thesis
    proof (cases "setInt (fieldBytes r) view (fst (snd r)) (snd (snd r))")
      case (Inl e)
      with True show ?thesis
        by (simp add: writeRows_step del: writeRows.simps)
    next
      case (Inr view')
      with True have "writeRows (r # rows) console view = writeRows rows console view'"
        and "writeRows (r # rows) console' view = writeRows rows console' view'"
        by (simp_all add: writeRows_step del: writeRows.simps)
      with Cons [of console view' console'] show ?thesis by simp
    qed
  qed
qed

lemma writeRows_returns:
  "writeRows matrix console view = (console', Inr buf) \<Longrightarrow>
   console' = console @
       replicate (length (filter (\<lambda>r. \<not> validWidth r) matrix)) invalidParameters \<and>
   writeRows (filter validWidth matrix) c view = (c, Inr buf)"
proof (induction matrix arbitrary: console view)
  case Nil
  then show ?case by simp
next
  case (Cons r rows)
  show ?case
  proof (cases "validWidth r")
    case False
    with Cons.prems
    have "writeRows rows (console @ [invalidParameters]) view = (console', Inr buf)"
      by (simp add: writeRows_step del: writeRows.simps)
    from Cons.IH [OF this] False show ?thesis
      by (simp add: replicate_append_same)
  next
    case True
    show ?thesis
    proof (cases "setInt (fieldBytes r) view (fst (snd r)) (snd (snd r))")
      case (Inl e)
      with True Cons.prems show ?thesis
        by (simp add: writeRows_step del: writeRows.simps)
    next
      case (Inr view')
      with True Cons.prems have "writeRows rows console view' = (console', Inr buf)"
        by (simp add: writeRows_step del: writeRows.simps)
      from Cons.IH [OF this] True Inr show ?thesis
        by (simp add: writeRows_step del: writeRows.simps)
    qed
  qed
qed

text \<open>
  Claim C5, as stated, speaks of every row whose width is not 8, 16 or 32. The loop
  looks at the rows in order and a \<open>RangeError\<close> of \<open>setInt8\<close>, \<open>setInt16\<close> or \<open>setInt32\<close>
  ends the call: a row of invalid width that comes after a row lying outside the
  buffer is never looked at, and nothing is printed for it.
\<close>

theorem invalid_width_unreached:
  "\<not> validWidth (7, 0, 9) \<and>
   createArrayBuffer 4 [(8, 5, 1), (7, 0, 9)] = ([], Inl RangeError)"
  by code_simp

text \<open>
  Claim C5, amended. A row whose width is not 8, 16 or 32 and which the loop reaches
  takes the error path: when the rows before it have been written (none threw), the
  call goes on with the rows after it, with the message added to the console and the
  buffer as it was; the message stays on the console whatever the later rows do, and
  the outcome is that of the matrix without the row. For the whole matrix: when the
  call returns a buffer, the console holds one message for each row of invalid width,
  and the buffer is the one that the rows of valid width alone produce.
\<close>

theorem invalid_width_reported:
  "(\<not> validWidth r \<and> createArrayBuffer bytes pre = (console, Inr view) \<longrightarrow>
      createArrayBuffer bytes (pre @ r # post) =
        writeRows post (console @ [invalidParameters]) view \<and>
      (\<exists>more. fst (createArrayBuffer bytes (pre @ r # post)) =
         console @ invalidParameters # more) \<and>
      snd (createArrayBuffer bytes (pre @ r # post)) = snd (createArrayBuffer bytes (pre @ post))) \<and>
   (createArrayBuffer bytes matrix = (console', Inr buf) \<longrightarrow>
      console' = replicate (length (filter (\<lambda>r. \<not> validWidth r) matrix)) invalidParameters \<and>
      createArrayBuffer bytes (filter validWidth matrix) = ([], Inr buf))"
proof (intro conjI impI)
  assume a: "\<not> validWidth r \<and> createArrayBuffer bytes pre = (console, Inr view)"
  obtain bits byteOffset v where r: "r = (bits, byteOffset, v)"
    by (cases r) auto
  from a have pre: "writeRows pre [] (replicate bytes 0) = (console, Inr view)"
    by (simp add: createArrayBuffer_def)
  from a r have step: "writeRows (r # post) console view =
      writeRows post (console @ [invalidParameters]) view"
    by (simp add: writeRows_invalid del: writeRows.simps)
  show run: "createArrayBuffer bytes (pre @ r # post) =
      writeRows post (console @ [invalidParameters]) view"
    by (simp add: createArrayBuffer_def writeRows_append pre step del: writeRows.simps)
  from writeRows_console [of post "console @ [invalidParameters]" view]
  show "\<exists>more. fst (createArrayBuffer bytes (pre @ r # post)) =
      console @ invalidParameters # more"
    unfolding run by simp
  have "createArrayBuffer bytes (pre @ post) = writeRows post console view"
    by (simp add: createArrayBuffer_def writeRows_append pre)
  with writeRows_outcome [of post "console @ [invalidParameters]" view console]
  show "snd (createArrayBuffer bytes (pre @ r # post)) =
      snd (createArrayBuffer bytes (pre @ post))"
    unfolding run by simp
next
  assume "createArrayBuffer bytes matrix = (console', Inr buf)"
  then have "writeRows matrix [] (replicate bytes 0) = (console', Inr buf)"
    by (simp add: createArrayBuffer_def)
  from writeRows_returns [OF this, of "[]"]
  show "console' = replicate (length (filter (\<lambda>r. \<not> validWidth r) matrix)) invalidParameters"
    and "createArrayBuffer bytes (filter validWidth matrix) = ([], Inr buf)"
    by (simp_all add: createArrayBuffer_def)
qed


lemma invalid_width_examples:
  "createArrayBuffer 4 [(8, 0, 1)] = ([], Inr [1, 0, 0, 0])"
  "createArrayBuffer 4 [(8, 0, 1), (7, 0, 9), (16, 1, 2)] =
     ([invalidParameters], Inr [1, 0, 2, 0])"
  "createArrayBuffer 4 [(8, 0, 1), (16, 1, 2)] = ([], Inr [1, 0, 2, 0])"
  "\<not> validWidth (7, 0, 9)"
     apply code_simp
    apply code_simp
   apply code_simp
  apply code_simp
  done


theorem invalid_width_reported_witness:
  "\<not> validWidth (7, 0, 9) \<and> createArrayBuffer 4 [(8, 0, 1)] = ([], Inr [1, 0, 0, 0]) \<and>
   createArrayBuffer 4 ([(8, 0, 1)] @ (7, 0, 9) # [(16, 1, 2)]) =
     writeRows [(16, 1, 2)] ([] @ [invalidParameters]) [1, 0, 0, 0] \<and>
   createArrayBuffer 4 [(8, 0, 1), (7, 0, 9), (16, 1, 2)] =
     ([invalidParameters], Inr [1, 0, 2, 0]) \<and>
   [invalidParameters] =
     replicate (length (filter (\<lambda>r. \<not> validWidth r) [(8, 0, 1), (7, 0, 9), (16, 1, 2)]))
       invalidParameters \<and>
   createArrayBuffer 4 (filter validWidth [(8, 0, 1), (7, 0, 9), (16, 1, 2)]) =
     ([], Inr [1, 0, 2, 0])"
proof -
  note t = invalid_width_reported [of "(7, 0, 9)" 4 "[(8, 0, 1)]" "[]" "[1, 0, 0, 0]"
      "[(16, 1, 2)]" "[(8, 0, 1), (7, 0, 9), (16, 1, 2)]" "[invalidParameters]" "[1, 0, 2, 0]"]
  note ex = invalid_width_examples
  have a: "\<not> validWidth (7, 0, 9)" by (rule ex(4))
  have b: "createArrayBuffer 4 [(8, 0, 1)] = ([], Inr [1, 0, 0, 0])" by (rule ex(1))
  have c: "createArrayBuffer 4 [(8, 0, 1), (7, 0, 9), (16, 1, 2)] =
     ([invalidParameters], Inr [1, 0, 2, 0])" by (rule ex(2))
  from t a b have d: "createArrayBuffer 4 ([(8, 0, 1)] @ (7, 0, 9) # [(16, 1, 2)]) =
     writeRows [(16, 1, 2)] ([] @ [invalidParameters]) [1, 0, 0, 0]"
    by blast
  from t c have e: "[invalidParameters] =
     replicate (length (filter (\<lambda>r. \<not> validWidth r) [(8, 0, 1), (7, 0, 9), (16, 1, 2)]))
       invalidParameters"
    and f: "createArrayBuffer 4 (filter validWidth [(8, 0, 1), (7, 0, 9), (16, 1, 2)]) =
     ([], Inr [1, 0, 2, 0])"
    by blast+
  from a b c d e f show ?thesis by blast
qed

subsection \<open>Reading the fields back\<close>

text \<open>Read most significant byte first, the bytes of a field give the value modulo 2 to the width.\<close>

lemma foldl_bigEndian:
  "foldl (\<lambda>acc b. 256 * acc + uint b) a (bigEndian n v) = a * 256 ^ n + v mod 256 ^ n"
proof (induction n arbitrary: a)
  case 0
  show ?case by simp
next
  case (Suc n)
  have b: "uint (word_of_int (v div 256 ^ n) :: byte) = (v div 256 ^ n) mod 256"
    by (simp add: uint_word_of_int_eq take_bit_eq_mod)
  have "v mod (256 ^ n * 256) = 256 ^ n * (v div 256 ^ n mod 256) + v mod 256 ^ n"
    by (rule zmod_zmult2_eq) simp
  then have m: "v mod 256 ^ Suc n = 256 ^ n * (v div 256 ^ n mod 256) + v mod 256 ^ n"
    by (simp add: mult.commute)
  have "foldl (\<lambda>acc b. 256 * acc + uint b) a (bigEndian (Suc n) v) =
      foldl (\<lambda>acc b. 256 * acc + uint b) (256 * a + v div 256 ^ n mod 256) (bigEndian n v)"
    by (simp add: b)
  also have "\<dots> = (256 * a + v div 256 ^ n mod 256) * 256 ^ n + v mod 256 ^ n"
    by (rule Suc)
  also have "\<dots> = a * 256 ^ Suc n + v mod 256 ^ Suc n"
    unfolding m by (simp add: algebra_simps)
  finally show ?case .
qed

lemma fromBigEndian_bigEndian: "fromBigEndian (bigEndian n v) = v mod 256 ^ n"
  by (simp add: fromBigEndian_def foldl_bigEndian)

lemma field_read:
  assumes v: "validMatrix bytes matrix" and r: "(bits, byteOffset, v) \<in> set matrix"
    and len: "length buf = bytes"
    and buf: "\<forall>j < bytes. buf ! j = expectedByte matrix (replicate bytes 0) j"
  shows "getUint (nat (bits div 8)) buf byteOffset = Inr (v mod 256 ^ nat (bits div 8))"
proof -
  note f = field_in_buffer [OF v r]
  define n where "n = nat (bits div 8)"
  have "take n (drop (nat byteOffset) buf) = bigEndian n v"
  proof (rule nth_equalityI)
    from f len show "length (take n (drop (nat byteOffset) buf)) = length (bigEndian n v)"
      by (simp add: length_bigEndian n_def)
  next
    fix k
    assume "k < length (take n (drop (nat byteOffset) buf))"
    then have k: "k < n" by simp
    with f len have "take n (drop (nat byteOffset) buf) ! k = buf ! (nat byteOffset + k)"
      by (simp add: n_def)
    also from k have "\<dots> = word_of_int (v div 256 ^ (n - 1 - k))"
      unfolding n_def by (intro field_bytes [OF v r buf])
    also from k have "\<dots> = bigEndian n v ! k"
      by (simp add: nth_bigEndian)
    finally show "take n (drop (nat byteOffset) buf) ! k = bigEndian n v ! k" .
  qed
  moreover from f len have "\<not> (byteOffset < 0 \<or> int (length buf) < byteOffset + int n)"
    by (auto simp: n_def)
  ultimately show ?thesis
    unfolding n_def [symmetric] by (simp add: getUint_def fromBigEndian_bigEndian)
qed

lemma readUnsigned_field:
  assumes "bits = 8 \<or> bits = 16 \<or> bits = 32"
    and "getUint (nat (bits div 8)) buf byteOffset = Inr (v mod 256 ^ nat (bits div 8))"
  shows "readUnsigned buf bits byteOffset = Inr (v mod 2 ^ nat bits)"
  using assms by (auto simp: readUnsigned_def)

lemma signed_wrap:
  fixes v h M :: int
  assumes "M = 2 * h" and "- h \<le> v" and "v < h"
  shows "(if h \<le> v mod M then v mod M - M else v mod M) = v"
proof (cases "0 \<le> v")
  case True
  with assms have "v mod M = v" by simp
  with assms show ?thesis by simp
next
  case False
  have "v mod M = (v + M) mod M" by simp
  also from False assms have "\<dots> = v + M"
    by (intro mod_pos_pos_trivial) simp_all
  finally show ?thesis using assms by simp
qed

lemma readSigned_field:
  assumes w: "bits = 8 \<or> bits = 16 \<or> bits = 32"
    and g: "getUint (nat (bits div 8)) buf byteOffset = Inr (v mod 256 ^ nat (bits div 8))"
    and s: "fitsSigned (bits, byteOffset, v)"
  shows "readSigned buf bits byteOffset = Inr v"
proof -
  from w consider "bits = 8" | "bits = 16" | "bits = 32" by blast
  then show ?thesis
  proof cases
    case 1
    with s have "- 128 \<le> v" "v < 128" by (simp_all add: fitsSigned_def)
    from signed_wrap [of 256 128 v, OF _ this]
    have h: "(if 128 \<le> v mod 256 then v mod 256 - 256 else v mod 256) = v" by simp
    from g 1 have "getUint 1 buf byteOffset = Inr (v mod 256)" by simp
    with h have "getInt 1 buf byteOffset = Inr v"
      by (simp add: getInt_def split: if_splits)
    with 1 show ?thesis by (simp add: readSigned_def)
  next
    case 2
    with s have "- 32768 \<le> v" "v < 32768" by (simp_all add: fitsSigned_def)
    from signed_wrap [of 65536 32768 v, OF _ this]
    have h: "(if 32768 \<le> v mod 65536 then v mod 65536 - 65536 else v mod 65536) = v" by simp
    from g 2 have "getUint 2 buf byteOffset = Inr (v mod 65536)" by simp
    with h have "getInt 2 buf byteOffset = Inr v"
      by (simp add: getInt_def split: if_splits)
    with 2 show ?thesis by (simp add: readSigned_def)
  next
    case 3
    with s have "- 2147483648 \<le> v" "v < 2147483648" by (simp_all add: fitsSigned_def)
    from signed_wrap [of 4294967296 2147483648 v, OF _ this]
    have h: "(if 2147483648 \<le> v mod 4294967296 then v mod 4294967296 - 4294967296
              else v mod 4294967296) = v" by simp
    from g 3 have "getUint 4 buf byteOffset = Inr (v mod 4294967296)" by simp
    with h have "getInt 4 buf byteOffset = Inr v"
      by (simp add: getInt_def split: if_splits)
    with 3 show ?thesis by (simp add: readSigned_def)
  qed
qed

text \<open>
  Claim C3, as stated, takes every list with valid widths and offsets, whatever the
  values. \<open>setInt8\<close> keeps the low 8 bits of its value: 256 is stored as the byte 0, and
  no read of that byte gives 256 back.
\<close>

theorem roundtrip_out_of_range:
  "validMatrix 1 [(8, 0, 256)] \<and>
   createArrayBuffer 1 [(8, 0, 256)] = ([], Inr [0]) \<and>
   readSigned [0] 8 0 = Inr 0 \<and> readUnsigned [0] 8 0 = Inr 0 \<and> (256 :: int) \<noteq> 0"
  by code_simp

text \<open>
  Claim C3, amended. For every valid field-spec list (widths of 8, 16 or 32, offsets
  inside the buffer, no two fields sharing a byte), reading the buffer of
  \<open>createArrayBuffer\<close> at a row's offset and width gives the row's value modulo 2 to the
  width: the signed read gives back every value of the signed range of the width, the
  unsigned read every value from 0 to 2 to the width minus 1.
\<close>

theorem roundtrip_in_range:
  assumes "validMatrix bytes matrix"
  shows "\<exists>buf. createArrayBuffer bytes matrix = ([], Inr buf) \<and>
     (\<forall>(bits, byteOffset, v) \<in> set matrix.
        readUnsigned buf bits byteOffset = Inr (v mod 2 ^ nat bits) \<and>
        (fitsUnsigned (bits, byteOffset, v) \<longrightarrow> readUnsigned buf bits byteOffset = Inr v) \<and>
        (fitsSigned (bits, byteOffset, v) \<longrightarrow> readSigned buf bits byteOffset = Inr v))"
proof -
  from createArrayBuffer_expected [OF assms] obtain buf where
    run: "createArrayBuffer bytes matrix = ([], Inr buf)" and len: "length buf = bytes"
    and nth: "\<forall>j < bytes. buf ! j = expectedByte matrix (replicate bytes 0) j"
    by blast
  have "readUnsigned buf bits byteOffset = Inr (v mod 2 ^ nat bits) \<and>
        (fitsUnsigned (bits, byteOffset, v) \<longrightarrow> readUnsigned buf bits byteOffset = Inr v) \<and>
        (fitsSigned (bits, byteOffset, v) \<longrightarrow> readSigned buf bits byteOffset = Inr v)"
    if r: "(bits, byteOffset, v) \<in> set matrix" for bits byteOffset v
  proof -
    note w = field_in_buffer(3) [OF assms r]
    note g = field_read [OF assms r len nth]
    from w g have u: "readUnsigned buf bits byteOffset = Inr (v mod 2 ^ nat bits)"
      by (rule readUnsigned_field)
    have "readUnsigned buf bits byteOffset = Inr v" if "fitsUnsigned (bits, byteOffset, v)"
      using that u by (simp add: fitsUnsigned_def)
    moreover have "readSigned buf bits byteOffset = Inr v" if "fitsSigned (bits, byteOffset, v)"
      using w g that by (rule readSigned_field)
    ultimately show ?thesis using u by blast
  qed
  with run show ?thesis by blast
qed

lemma roundtrip_example:
  "validMatrix 4 [(16, 2, - 2), (8, 0, 200)]"
  "fitsSigned (16, 2, - 2)"
  "fitsUnsigned (8, 0, 200)"
  "createArrayBuffer 4 [(16, 2, - 2), (8, 0, 200)] = ([], Inr [200, 0, 255, 254])"
     apply code_simp
    apply code_simp
   apply code_simp
  apply code_simp
  done

theorem roundtrip_in_range_witness:
  "validMatrix 4 [(16, 2, - 2), (8, 0, 200)] \<and>
   fitsSigned (16, 2, - 2) \<and> fitsUnsigned (8, 0, 200) \<and>
   createArrayBuffer 4 [(16, 2, - 2), (8, 0, 200)] = ([], Inr [200, 0, 255, 254]) \<and>
   readSigned [200, 0, 255, 254] 16 2 = Inr (- 2) \<and>
   readUnsigned [200, 0, 255, 254] 8 0 = Inr 200"
proof -
  note ex = roundtrip_example
  from roundtrip_in_range [OF ex(1)] ex(4)
  have all: "\<forall>(bits, byteOffset, v) \<in> set [(16, 2, - 2), (8, 0, 200)].
        readUnsigned [200, 0, 255, 254] bits byteOffset = Inr (v mod 2 ^ nat bits) \<and>
        (fitsUnsigned (bits, byteOffset, v) \<longrightarrow>
           readUnsigned [200, 0, 255, 254] bits byteOffset = Inr v) \<and>
        (fitsSigned (bits, byteOffset, v) \<longrightarrow>
           readSigned [200, 0, 255, 254] bits byteOffset = Inr v)"
    by auto
  from all ex(2) have s: "readSigned [200, 0, 255, 254] 16 2 = Inr (- 2)"
    by simp
  from all ex(3) have u: "readUnsigned [200, 0, 255, 254] 8 0 = Inr 200"
    by simp
  from ex s u show ?thesis by blast
qed

subsection \<open>longestPrefixMatch and filterRouterIps\<close>

lemma parsePart_le: "parsePart s = Some n \<Longrightarrow> n \<le> 255"
  by (auto simp: parsePart_def Let_def split: if_splits)

lemma IPv4_parse_octets:
  assumes "IPv4_parse s = Inr ip"
  shows "length ip = 4" and "list_all (\<lambda>n. n \<le> 255) ip"
proof -
  define parts where "parts = map parsePart (splitOn (CHR ''.'') s)"
  from assms have len: "length parts = 4" and some: "list_all (\<lambda>p. p \<noteq> None) parts"
    and ip: "ip = map the parts"
    by (auto simp: IPv4_parse_def parts_def Let_def split: if_splits)
  from len ip show "length ip = 4" by simp
  have "the p \<le> 255" if "p \<in> set parts" for p
  proof -
    from that some obtain n where n: "p = Some n"
      by (auto simp: list_all_iff)
    with that have "\<exists>t. parsePart t = Some n"
      by (auto simp: parts_def)
    then show ?thesis
      using n parsePart_le by auto
  qed
  with ip show "list_all (\<lambda>n. n \<le> 255) ip"
    by (simp add: list_all_iff)
qed


lemma isValid_parse: "isValid s \<longleftrightarrow> (\<exists>ip. IPv4_parse s = Inr ip)"
  by (simp add: isValid_def split: sum.splits)

text \<open>The first bit of an address differs from that of 192.168.1.1 or from that of 10.0.1.1.\<close>

lemma maskLoop_first_bit:
  assumes "length ip = 4" and "list_all (\<lambda>n. n \<le> 255) ip"
  shows "maskLoop [192, 168, 1, 1] ip 1 = Some 0 \<or> maskLoop [10, 0, 1, 1] ip 1 = Some 0"
proof -
  from assms obtain a rest where ip: "ip = a # rest" and a: "a \<le> 255"
    by (cases ip) auto
  from a have "a div 128 = 0 \<or> a div 128 = 1" by auto
  then show ?thesis
  proof
    assume "a div 128 = 0"
    then have "\<not> IPv4_match [192, 168, 1, 1] ip 1"
      by (simp add: IPv4_match_def ip)
    then have "maskLoop [192, 168, 1, 1] ip 1 = Some 0"
      by (subst maskLoop.simps) simp
    then show ?thesis ..
  next
    assume "a div 128 = 1"
    then have "\<not> IPv4_match [10, 0, 1, 1] ip 1"
      by (simp add: IPv4_match_def ip)
    then have "maskLoop [10, 0, 1, 1] ip 1 = Some 0"
      by (subst maskLoop.simps) simp
    then show ?thesis ..
  qed
qed

lemma ROUTER_IPS_parse:
  "map IPv4_parse ROUTER_IPS = map Inr
     [[192, 168, 1, 1], [192, 168, 2, 1], [192, 168, 11, 1], [192, 168, 0, 1],
      [192, 168, 0, 30], [192, 168, 0, 50], [192, 168, 20, 1], [192, 168, 30, 1],
      [192, 168, 62, 1], [192, 168, 100, 1], [192, 168, 102, 1], [192, 168, 1, 254],
      [192, 168, 10, 1], [192, 168, 123, 254], [192, 168, 4, 1], [10, 0, 1, 1],
      [10, 1, 1, 1], [10, 0, 0, 13], [10, 0, 0, 2], [10, 0, 0, 138]]"
  by code_simp

lemma ROUTER_IPS_valid: "list_all isValid ROUTER_IPS"
  by code_simp

text \<open>The outer loop pushes at most one number for each address of the list.\<close>

lemma ipLoop_length:
  "list_all isValid ips \<Longrightarrow>
   \<exists>pm. ipLoop ips m acc = Inr pm \<and> length acc \<le> length pm \<and>
        length pm \<le> length acc + length ips \<and>
        ((\<exists>s \<in> set ips. \<exists>ip. IPv4_parse s = Inr ip \<and> maskLoop ip m 1 \<noteq> None) \<longrightarrow>
           length acc < length pm)"
proof (induction ips arbitrary: acc)
  case Nil
  show ?case by simp
next
  case (Cons s rest)
  from Cons.prems have s: "isValid s" and rest: "list_all isValid rest"
    by simp_all
  from s obtain ip where ip: "IPv4_parse s = Inr ip"
    unfolding isValid_parse by blast
  define acc' where "acc' = (case maskLoop ip m 1 of Some k \<Rightarrow> acc @ [k] | None \<Rightarrow> acc)"
  have step: "ipLoop (s # rest) m acc = ipLoop rest m acc'"
    by (simp add: ip acc'_def)
  have l1: "length acc \<le> length acc'" and l2: "length acc' \<le> length acc + 1"
    and l3: "maskLoop ip m 1 \<noteq> None \<Longrightarrow> length acc < length acc'"
    by (auto simp: acc'_def split: option.splits)
  from Cons.IH [OF rest, of acc'] obtain pm where
    pm: "ipLoop rest m acc' = Inr pm" "length acc' \<le> length pm"
      "length pm \<le> length acc' + length rest"
      "(\<exists>s \<in> set rest. \<exists>ip. IPv4_parse s = Inr ip \<and> maskLoop ip m 1 \<noteq> None) \<longrightarrow>
         length acc' < length pm"
    by blast
  have "length acc < length pm"
    if "\<exists>t \<in> set (s # rest). \<exists>ip. IPv4_parse t = Inr ip \<and> maskLoop ip m 1 \<noteq> None"
  proof (cases "maskLoop ip m 1 \<noteq> None")
    case True
    from l3 [OF this] pm(2) show ?thesis by simp
  next
    case False
    with that ip have "\<exists>t \<in> set rest. \<exists>ip. IPv4_parse t = Inr ip \<and> maskLoop ip m 1 \<noteq> None"
      by auto
    with pm(4) l1 show ?thesis by simp
  qed
  with step pm l1 l2 show ?case
    by auto
qed

lemma indexOf_member:
  "x \<in> set xs \<Longrightarrow> 0 \<le> indexOf xs x \<and> indexOf xs x < int (length xs)"
proof (induction xs)
  case Nil
  then show ?case by simp
next
  case (Cons y ys)
  show ?case
  proof (cases "y = x")
    case True
    then show ?thesis by simp
  next
    case False
    with Cons.prems have "x \<in> set ys" by simp
    from Cons.IH [OF this] False show ?thesis
      by (simp add: Let_def)
  qed
qed

lemma Math_max_member: "pm \<noteq> [] \<Longrightarrow> Math_max pm \<in> set (map Num pm)"
proof (induction pm)
  case Nil
  then show ?case by simp
next
  case (Cons x xs)
  show ?case
  proof (cases xs)
    case Nil
    then show ?thesis by simp
  next
    case (Cons y ys)
    with Cons.IH obtain k where k: "Math_max xs = Num k" "k \<in> set xs"
      by auto
    then show ?thesis
      by (auto simp: max_def)
  qed
qed

text \<open>What the outer loop collects, once the list is parsed.\<close>

lemma ipLoop_parsed:
  "map IPv4_parse ips = map Inr parsed \<Longrightarrow>
   ipLoop ips m acc = Inr (acc @ List.map_filter (\<lambda>ip. maskLoop ip m 1) parsed)"
proof (induction ips arbitrary: parsed acc)
  case Nil
  then show ?case by simp
next
  case (Cons s rest)
  then obtain ip parsed' where p: "parsed = ip # parsed'" "IPv4_parse s = Inr ip"
    "map IPv4_parse rest = map Inr parsed'"
    by (cases parsed) auto
  from Cons.IH [OF p(3)] p(1,2) show ?case
    by (cases "maskLoop ip m 1") (simp_all del: maskLoop.simps)
qed

lemma ROUTER_IPS_nth:
  "length ROUTER_IPS = 20"
  "ROUTER_IPS ! 0 = ''192.168.1.1''"
  "ROUTER_IPS ! 3 = ''192.168.0.1''"
  "ROUTER_IPS ! 18 = ''10.0.0.2''"
  by (simp_all add: ROUTER_IPS_def)

text \<open>Against the table, a valid address always gets an entry of the table.\<close>

lemma longestPrefixMatch_ROUTER_IPS:
  assumes "isValid p"
  shows "\<exists>r \<in> set ROUTER_IPS. longestPrefixMatch ROUTER_IPS p = Inr (Some r)"
proof -
  from assms obtain m where m: "IPv4_parse p = Inr m"
    unfolding isValid_parse by blast
  note oct = IPv4_parse_octets [OF m]
  have a: "''192.168.1.1'' \<in> set ROUTER_IPS" "''10.0.1.1'' \<in> set ROUTER_IPS"
    by (simp_all add: ROUTER_IPS_def)
  have b: "IPv4_parse ''192.168.1.1'' = Inr [192, 168, 1, 1]"
    "IPv4_parse ''10.0.1.1'' = Inr [10, 0, 1, 1]"
    by code_simp+
  have c: "maskLoop [192, 168, 1, 1] m 1 \<noteq> None \<or> maskLoop [10, 0, 1, 1] m 1 \<noteq> None"
    using maskLoop_first_bit [OF oct] by auto
  from a b c have "\<exists>s \<in> set ROUTER_IPS. \<exists>ip. IPv4_parse s = Inr ip \<and> maskLoop ip m 1 \<noteq> None"
    by blast
  with ipLoop_length [OF ROUTER_IPS_valid, of m "[]"] obtain pm where
    pm: "ipLoop ROUTER_IPS m [] = Inr pm" "0 < length pm" "length pm \<le> length ROUTER_IPS"
    by auto
  define maxIndex where "maxIndex = indexOf (map Num pm) (Math_max pm)"
  from pm(2) have "Math_max pm \<in> set (map Num pm)"
    by (intro Math_max_member) auto
  from indexOf_member [OF this] pm(3)
  have i: "0 \<le> maxIndex" "maxIndex < int (length ROUTER_IPS)"
    by (simp_all add: maxIndex_def)
  then have "arrayGet ROUTER_IPS maxIndex = Some (ROUTER_IPS ! nat maxIndex)"
    and "ROUTER_IPS ! nat maxIndex \<in> set ROUTER_IPS"
    by (simp_all add: arrayGet_def)
  moreover have "longestPrefixMatch ROUTER_IPS p = Inr (arrayGet ROUTER_IPS maxIndex)"
    by (simp add: longestPrefixMatch_def m pm(1) maxIndex_def)
  ultimately show ?thesis by simp
qed

lemma filterRouterIps_loop_ok:
  "list_all isValid ips \<Longrightarrow>
   \<exists>rs. filterRouterIps_loop ips acc = Inr (acc @ rs) \<and> length rs = length ips \<and>
        (\<forall>i < length ips. \<exists>r \<in> set ROUTER_IPS.
           rs ! i = Some r \<and> longestPrefixMatch ROUTER_IPS (ips ! i) = Inr (Some r))"
proof (induction ips arbitrary: acc)
  case Nil
  show ?case by simp
next
  case (Cons p rest)
  then have "isValid p" and rest: "list_all isValid rest"
    by simp_all
  from longestPrefixMatch_ROUTER_IPS [OF this(1)] obtain r where
    r: "r \<in> set ROUTER_IPS" "longestPrefixMatch ROUTER_IPS p = Inr (Some r)"
    by blast
  from Cons.IH [OF rest, of "acc @ [Some r]"] obtain rs where
    rs: "filterRouterIps_loop rest (acc @ [Some r]) = Inr ((acc @ [Some r]) @ rs)"
      "length rs = length rest"
      "\<forall>i < length rest. \<exists>r \<in> set ROUTER_IPS.
         rs ! i = Some r \<and> longestPrefixMatch ROUTER_IPS (rest ! i) = Inr (Some r)"
    by blast
  have "\<exists>r' \<in> set ROUTER_IPS. (Some r # rs) ! i = Some r' \<and>
      longestPrefixMatch ROUTER_IPS ((p # rest) ! i) = Inr (Some r')"
    if "i < length (p # rest)" for i
  proof (cases i)
    case 0
    with r show ?thesis by simp
  next
    case (Suc k)
    with that rs(3) show ?thesis by simp
  qed
  moreover from r rs have "filterRouterIps_loop (p # rest) acc = Inr (acc @ (Some r # rs))"
    by simp
  moreover from rs have "length (Some r # rs) = length (p # rest)"
    by simp
  ultimately show ?case by blast
qed

text \<open>
  Claim C9. For every list of private addresses (valid IPv4 addresses, as
  \<open>getPrivateIps\<close> delivers them), \<open>filterRouterIps\<close> returns a list with exactly one
  candidate for each input address, in the order of the input: the list has the length
  of the input, and its element \<open>i\<close> is an address of the table, the one
  \<open>longestPrefixMatch\<close> returns for the private address \<open>i\<close>. For the empty list it
  returns the empty list.
\<close>

theorem filterRouterIps_one_per_address:
  "filterRouterIps [] = Inr [] \<and>
   (list_all isValid privateIps \<longrightarrow>
      (\<exists>routerIps. filterRouterIps privateIps = Inr routerIps \<and>
         length routerIps = length privateIps \<and>
         (\<forall>i < length privateIps. \<exists>r \<in> set ROUTER_IPS.
            routerIps ! i = Some r \<and>
            longestPrefixMatch ROUTER_IPS (privateIps ! i) = Inr (Some r))))"
proof (intro conjI impI)
  show "filterRouterIps [] = Inr []"
    by (simp add: filterRouterIps_def)
next
  assume "list_all isValid privateIps"
  from filterRouterIps_loop_ok [OF this, of "[]"]
  show "\<exists>routerIps. filterRouterIps privateIps = Inr routerIps \<and>
         length routerIps = length privateIps \<and>
         (\<forall>i < length privateIps. \<exists>r \<in> set ROUTER_IPS.
            routerIps ! i = Some r \<and>
            longestPrefixMatch ROUTER_IPS (privateIps ! i) = Inr (Some r))"
    by (simp add: filterRouterIps_def)
qed

lemma private_parse:
  "IPv4_parse ''192.168.1.37'' = Inr [192, 168, 1, 37]"
  "IPv4_parse ''10.0.0.7'' = Inr [10, 0, 0, 7]"
  "IPv4_parse ''192.168.0.31'' = Inr [192, 168, 0, 31]"
  "IPv4_parse ''10.0.0.1'' = Inr [10, 0, 0, 1]"
  "IPv4_parse ''192.168.0.30'' = Inr [192, 168, 0, 30]"
  "IPv4_parse ''192.168.0.1'' = Inr [192, 168, 0, 1]"
  by code_simp+

lemma prefixMatches_examples:
  "ipLoop ROUTER_IPS [192, 168, 1, 37] [] =
     Inr [26, 22, 20, 23, 23, 23, 19, 19, 18, 17, 17, 24, 20, 17, 21, 0, 0, 0, 0, 0]"
  "ipLoop ROUTER_IPS [10, 0, 0, 7] [] =
     Inr [0, 0, 0, 0, 0, 0, 0, 0, 0, 0, 0, 0, 0, 0, 0, 23, 15, 28, 29, 24]"
  "ipLoop ROUTER_IPS [192, 168, 0, 31] [] =
     Inr [23, 22, 20, 27, 26, 19, 19, 18, 17, 17, 23, 20, 17, 21, 0, 0, 0, 0, 0]"
  by (simp_all add: ipLoop_parsed [OF ROUTER_IPS_parse] IPv4_match_def)

lemma longestPrefixMatch_examples:
  "longestPrefixMatch ROUTER_IPS ''192.168.1.37'' = Inr (Some ''192.168.1.1'')"
  "longestPrefixMatch ROUTER_IPS ''10.0.0.7'' = Inr (Some ''10.0.0.2'')"
  "longestPrefixMatch ROUTER_IPS ''192.168.0.31'' = Inr (Some ''192.168.0.1'')"
  unfolding longestPrefixMatch_def private_parse sum.case prefixMatches_examples
  by (simp_all add: arrayGet_def ROUTER_IPS_nth)

theorem filterRouterIps_one_per_address_witness:
  "list_all isValid [''192.168.1.37'', ''10.0.0.7''] \<and>
   filterRouterIps [''192.168.1.37'', ''10.0.0.7''] =
     Inr [Some ''192.168.1.1'', Some ''10.0.0.2'']"
proof -
  have v: "list_all isValid [''192.168.1.37'', ''10.0.0.7'']"
    by (simp add: isValid_def private_parse)
  from filterRouterIps_one_per_address [of "[''192.168.1.37'', ''10.0.0.7'']"] v
  obtain routerIps where r: "filterRouterIps [''192.168.1.37'', ''10.0.0.7''] = Inr routerIps"
    "length routerIps = 2"
    "\<forall>i < 2. \<exists>r \<in> set ROUTER_IPS. routerIps ! i = Some r \<and>
       longestPrefixMatch ROUTER_IPS ([''192.168.1.37'', ''10.0.0.7''] ! i) = Inr (Some r)"
    by auto
  from r(3) have x: "\<exists>r \<in> set ROUTER_IPS. routerIps ! i = Some r \<and>
       longestPrefixMatch ROUTER_IPS ([''192.168.1.37'', ''10.0.0.7''] ! i) = Inr (Some r)"
    if "i < 2" for i
    using that by blast
  from x [of 0] have "routerIps ! 0 = Some ''192.168.1.1''"
    by (auto simp: longestPrefixMatch_examples)
  moreover from x [of 1] have "routerIps ! 1 = Some ''10.0.0.2''"
    by (auto simp: longestPrefixMatch_examples)
  ultimately have "routerIps ! 0 = Some ''192.168.1.1''" "routerIps ! 1 = Some ''10.0.0.2''"
    by simp_all
  with r(2) have "routerIps = [Some ''192.168.1.1'', Some ''10.0.0.2'']"
    by (cases routerIps; cases "tl routerIps") auto
  with r(1) v show ?thesis by simp
qed

subsection \<open>The mask loop and the shared prefix length\<close>

lemma commonPrefix_ge_iff:
  "k \<le> commonPrefix xs ys \<longleftrightarrow>
     k \<le> length xs \<and> k \<le> length ys \<and> (\<forall>j < k. xs ! j = ys ! j)"
proof (induction xs ys arbitrary: k rule: commonPrefix.induct)
  case (1 x xs y ys)
  show ?case
  proof (cases k)
    case 0
    then show ?thesis by simp
  next
    case (Suc k')
    show ?thesis
    proof (cases "x = y")
      case True
      with 1 [of k'] Suc show ?thesis
        by (auto simp: less_Suc_eq_0_disj)
    next
      case False
      with Suc show ?thesis by auto
    qed
  qed
qed auto

lemma bit_above:
  fixes x :: nat
  assumes "x < 2 ^ w" and "w \<le> i"
  shows "\<not> bit x i"
proof -
  from assms(1) have "take_bit w x = x"
    by (rule take_bit_nat_eq_self)
  then have "bit x i \<longleftrightarrow> bit (take_bit w x) i"
    by simp
  with assms(2) show ?thesis
    by (simp add: bit_take_bit_iff)
qed

lemma div_eq_iff_bits:
  fixes x y :: nat
  assumes "x < 2 ^ w" and "y < 2 ^ w"
  shows "x div 2 ^ s = y div 2 ^ s \<longleftrightarrow> (\<forall>i. s \<le> i \<and> i < w \<longrightarrow> bit x i = bit y i)"
proof -
  have "x div 2 ^ s = y div 2 ^ s \<longleftrightarrow> drop_bit s x = drop_bit s y"
    by (simp add: drop_bit_eq_div)
  also have "\<dots> \<longleftrightarrow> (\<forall>n. bit x (s + n) = bit y (s + n))"
    by (simp add: bit_eq_iff bit_drop_bit_eq)
  also have "\<dots> \<longleftrightarrow> (\<forall>i. s \<le> i \<and> i < w \<longrightarrow> bit x i = bit y i)"
  proof
    assume a: "\<forall>n. bit x (s + n) = bit y (s + n)"
    show "\<forall>i. s \<le> i \<and> i < w \<longrightarrow> bit x i = bit y i"
    proof (intro allI impI)
      fix i
      assume "s \<le> i \<and> i < w"
      with a [rule_format, of "i - s"] show "bit x i = bit y i" by simp
    qed
  next
    assume a: "\<forall>i. s \<le> i \<and> i < w \<longrightarrow> bit x i = bit y i"
    show "\<forall>n. bit x (s + n) = bit y (s + n)"
    proof
      fix n
      show "bit x (s + n) = bit y (s + n)"
      proof (cases "s + n < w")
        case True
        with a show ?thesis by simp
      next
        case False
        with assms have "\<not> bit x (s + n)" "\<not> bit y (s + n)"
          by (simp_all add: bit_above)
        then show ?thesis by simp
      qed
    qed
  qed
  finally show ?thesis .
qed

lemma octetBits_nth: "j < 8 \<Longrightarrow> octetBits x ! j = bit x (7 - j)"
  by (simp add: octetBits_def bit_iff_odd)

lemma length_octetBits: "length (octetBits x) = 8"
  by (simp add: octetBits_def)

lemma octet_match:
  assumes "x \<le> 255" and "y \<le> 255" and "k \<le> 8"
  shows "x div 2 ^ (8 - k) = y div 2 ^ (8 - k) \<longleftrightarrow>
         k \<le> commonPrefix (octetBits x) (octetBits y)"
proof -
  from assms have lt: "x < 2 ^ 8" "y < 2 ^ 8" by simp_all
  have "k \<le> commonPrefix (octetBits x) (octetBits y) \<longleftrightarrow>
      (\<forall>j < k. bit x (7 - j) = bit y (7 - j))"
    using assms(3) by (simp add: commonPrefix_ge_iff length_octetBits octetBits_nth)
  also have "\<dots> \<longleftrightarrow> (\<forall>i. 8 - k \<le> i \<and> i < 8 \<longrightarrow> bit x i = bit y i)"
  proof
    assume a: "\<forall>j < k. bit x (7 - j) = bit y (7 - j)"
    show "\<forall>i. 8 - k \<le> i \<and> i < 8 \<longrightarrow> bit x i = bit y i"
    proof (intro allI impI)
      fix i
      assume i: "8 - k \<le> i \<and> i < 8"
      then have "7 - i < k" "7 - (7 - i) = i" by auto
      with a [rule_format, of "7 - i"] show "bit x i = bit y i" by simp
    qed
  next
    assume a: "\<forall>i. 8 - k \<le> i \<and> i < 8 \<longrightarrow> bit x i = bit y i"
    show "\<forall>j < k. bit x (7 - j) = bit y (7 - j)"
    proof (intro allI impI)
      fix j
      assume "j < k"
      with assms(3) have "8 - k \<le> 7 - j \<and> 7 - j < 8" by auto
      with a show "bit x (7 - j) = bit y (7 - j)" by blast
    qed
  qed
  also have "\<dots> \<longleftrightarrow> x div 2 ^ (8 - k) = y div 2 ^ (8 - k)"
    using div_eq_iff_bits [OF lt, of "8 - k"] by simp
  finally show ?thesis by simp
qed

lemma octetBits_eq_iff:
  assumes "x \<le> 255" and "y \<le> 255"
  shows "octetBits x = octetBits y \<longleftrightarrow> x = y"
proof
  assume e: "octetBits x = octetBits y"
  have "8 \<le> commonPrefix (octetBits x) (octetBits y)"
    unfolding commonPrefix_ge_iff by (simp add: e length_octetBits)
  with octet_match [OF assms, of 8] show "x = y" by simp
qed simp

lemma commonPrefix_append:
  "length xs = length ys \<Longrightarrow>
   commonPrefix (xs @ xs') (ys @ ys') =
     (if xs = ys then length xs + commonPrefix xs' ys' else commonPrefix xs ys)"
proof (induction xs ys rule: list_induct2)
  case Nil
  show ?case by simp
next
  case (Cons x xs y ys)
  then show ?case by auto
qed

lemma commonPrefix_le: "commonPrefix xs ys \<le> length xs"
  using commonPrefix_ge_iff [of "commonPrefix xs ys" xs ys] by simp

lemma commonPrefix_same: "commonPrefix xs xs = length xs"
  by (induction xs) simp_all

lemma matchCIDR_nonpos: "c \<le> 0 \<Longrightarrow> matchCIDR as bs p c"
  by (cases as; cases bs) simp_all

lemma ipBits_Cons: "ipBits (x # xs) = octetBits x @ ipBits xs"
  by (simp add: ipBits_def)

lemma commonPrefix_ipBits_Cons:
  assumes "x \<le> 255" and "y \<le> 255"
  shows "commonPrefix (ipBits (x # as)) (ipBits (y # bs)) =
     (if x = y then 8 + commonPrefix (ipBits as) (ipBits bs)
      else commonPrefix (octetBits x) (octetBits y))"
  using commonPrefix_append [of "octetBits x" "octetBits y" "ipBits as" "ipBits bs"]
  by (simp add: ipBits_Cons length_octetBits octetBits_eq_iff [OF assms])

text \<open>\<open>match\<close> with a mask of \<open>m\<close> bits holds exactly when the addresses share \<open>m\<close> leading bits.\<close>

lemma matchCIDR_prefix:
  "length as = length bs \<Longrightarrow> list_all (\<lambda>n. n \<le> 255) as \<Longrightarrow> list_all (\<lambda>n. n \<le> 255) bs \<Longrightarrow>
   m \<le> 8 * length as \<Longrightarrow>
   matchCIDR as bs 8 (int m) \<longleftrightarrow> m \<le> commonPrefix (ipBits as) (ipBits bs)"
proof (induction as bs arbitrary: m rule: list_induct2)
  case Nil
  then show ?case by simp
next
  case (Cons x as y bs)
  then have x: "x \<le> 255" and y: "y \<le> 255"
    and rest: "list_all (\<lambda>n. n \<le> 255) as" "list_all (\<lambda>n. n \<le> 255) bs"
    by simp_all
  note cp = commonPrefix_ipBits_Cons [OF x y, of as bs]
  consider "m = 0" | "0 < m" "m \<le> 8" | "8 < m" by linarith
  then show ?case
  proof cases
    case 1
    then show ?thesis by simp
  next
    case 2
    then have shift: "nat (max 0 (int 8 - int m)) = 8 - m" by simp
    from 2 have "matchCIDR (x # as) (y # bs) 8 (int m) \<longleftrightarrow>
        x div 2 ^ (8 - m) = y div 2 ^ (8 - m)"
      unfolding matchCIDR.simps Let_def shift by (simp add: matchCIDR_nonpos)
    also from 2 have "\<dots> \<longleftrightarrow> m \<le> commonPrefix (octetBits x) (octetBits y)"
      by (intro octet_match [OF x y]) simp
    also have "\<dots> \<longleftrightarrow> m \<le> commonPrefix (ipBits (x # as)) (ipBits (y # bs))"
    proof (cases "x = y")
      case True
      with 2 show ?thesis
        unfolding cp by (simp add: commonPrefix_same length_octetBits)
    next
      case False
      then show ?thesis
        unfolding cp by simp
    qed
    finally show ?thesis .
  next
    case 3
    then have shift: "nat (max 0 (int 8 - int m)) = 0" by simp
    from 3 have m8: "int m - int 8 = int (m - 8)" by simp
    from 3 Cons.prems have "m - 8 \<le> 8 * length as" by simp
    from Cons.IH [OF rest this]
    have IH: "matchCIDR as bs 8 (int (m - 8)) \<longleftrightarrow> m - 8 \<le> commonPrefix (ipBits as) (ipBits bs)" .
    from 3 have "matchCIDR (x # as) (y # bs) 8 (int m) \<longleftrightarrow>
        x = y \<and> matchCIDR as bs 8 (int (m - 8))"
      unfolding matchCIDR.simps Let_def shift m8 by auto
    also have "\<dots> \<longleftrightarrow> m \<le> commonPrefix (ipBits (x # as)) (ipBits (y # bs))"
    proof (cases "x = y")
      case True
      with 3 IH show ?thesis
        unfolding cp by auto
    next
      case False
      have "commonPrefix (octetBits x) (octetBits y) \<le> 8"
        using commonPrefix_le [of "octetBits x" "octetBits y"] by (simp add: length_octetBits)
      with False 3 show ?thesis
        unfolding cp by simp
    qed
    finally show ?thesis .
  qed
qed

lemma IPv4_match_prefix:
  assumes "length a = 4" and "length b = 4"
    and "list_all (\<lambda>n. n \<le> 255) a" and "list_all (\<lambda>n. n \<le> 255) b"
    and "0 \<le> k" and "k \<le> 32"
  shows "IPv4_match a b k \<longleftrightarrow> nat k \<le> sharedPrefixLen a b"
proof -
  from assms have "nat k \<le> 8 * length a" "length a = length b" by simp_all
  from matchCIDR_prefix [OF this(2) assms(3,4) this(1)] assms(5)
  show ?thesis by (simp add: IPv4_match_def sharedPrefixLen_def)
qed

text \<open>
  The inner loop: it pushes the shared prefix length when that is at most 30, and
  nothing when the addresses share 31 or 32 bits.
\<close>

lemma maskLoop_from:
  assumes "length a = 4" and "length b = 4"
    and "list_all (\<lambda>n. n \<le> 255) a" and "list_all (\<lambda>n. n \<le> 255) b"
  shows "1 \<le> k \<Longrightarrow> k \<le> 32 \<Longrightarrow> nat (k - 1) \<le> sharedPrefixLen a b \<Longrightarrow>
     maskLoop a b k =
       (if sharedPrefixLen a b < 31 then Some (int (sharedPrefixLen a b)) else None)"
proof (induction "nat (32 - k)" arbitrary: k)
  case 0
  then have "k = 32" by simp
  with 0 have "31 \<le> sharedPrefixLen a b" by simp
  with \<open>k = 32\<close> show ?case
    by (subst maskLoop.simps) simp
next
  case (Suc n)
  then have k: "k < 32" "0 \<le> k" by simp_all
  from Suc.prems k have m: "IPv4_match a b k \<longleftrightarrow> nat k \<le> sharedPrefixLen a b"
    by (intro IPv4_match_prefix [OF assms]) simp_all
  show ?case
  proof (cases "IPv4_match a b k")
    case False
    with m Suc.prems have "sharedPrefixLen a b = nat (k - 1)"
      by linarith
    with False k Suc.prems show ?thesis
      by (subst maskLoop.simps) simp
  next
    case True
    from Suc.hyps(2) have "n = nat (32 - (k + 1))" by simp
    moreover from True m have "nat (k + 1 - 1) \<le> sharedPrefixLen a b" by simp
    ultimately have "maskLoop a b (k + 1) =
        (if sharedPrefixLen a b < 31 then Some (int (sharedPrefixLen a b)) else None)"
      using Suc.prems k by (intro Suc.hyps(1)) simp_all
    with True k show ?thesis
      by (subst maskLoop.simps) simp
  qed
qed

lemma maskLoop_prefix:
  assumes "length a = 4" and "length b = 4"
    and "list_all (\<lambda>n. n \<le> 255) a" and "list_all (\<lambda>n. n \<le> 255) b"
  shows "maskLoop a b 1 =
     (if sharedPrefixLen a b < 31 then Some (int (sharedPrefixLen a b)) else None)"
  by (rule maskLoop_from [OF assms]) simp_all

subsection \<open>The argmax\<close>

lemma Math_max_Max: "pm \<noteq> [] \<Longrightarrow> Math_max pm = Num (Max (set pm))"
proof (induction pm)
  case Nil
  then show ?case by simp
next
  case (Cons x xs)
  show ?case
  proof (cases "xs = []")
    case True
    then show ?thesis by simp
  next
    case False
    with Cons.IH have "Math_max xs = Num (Max (set xs))" by simp
    with False show ?thesis by simp
  qed
qed

lemma indexOf_map_Num: "indexOf (map Num xs) (Num x) = indexOf xs x"
  by (induction xs) simp_all

lemma indexOf_first:
  "x \<in> set xs \<Longrightarrow>
   xs ! nat (indexOf xs x) = x \<and> (\<forall>j < nat (indexOf xs x). xs ! j \<noteq> x)"
proof (induction xs)
  case Nil
  then show ?case by simp
next
  case (Cons y ys)
  show ?case
  proof (cases "y = x")
    case True
    then show ?thesis by simp
  next
    case False
    with Cons.prems have x: "x \<in> set ys" by simp
    from indexOf_member [OF x] have i: "0 \<le> indexOf ys x" by simp
    then have n: "nat (indexOf ys x + 1) = Suc (nat (indexOf ys x))" by simp
    from i have "indexOf ys x \<noteq> - 1" by simp
    with False have e: "indexOf (y # ys) x = indexOf ys x + 1"
      by (simp add: Let_def)
    from Cons.IH [OF x] False show ?thesis
      unfolding e n by (auto simp: less_Suc_eq_0_disj)
  qed
qed

lemma map_filter_all_Some:
  "\<forall>x \<in> set xs. f x = Some (g x) \<Longrightarrow> List.map_filter f xs = map g xs"
  by (induction xs) simp_all

text \<open>
  When every entry of the list shares at most 30 bits with the address,
  \<open>longestPrefixMatch\<close> returns the first entry whose shared prefix is the longest.
\<close>

lemma longestPrefixMatch_first_longest:
  assumes p: "map IPv4_parse ipList = map Inr parsed" and m: "IPv4_parse matchIp = Inr m"
    and ne: "ipList \<noteq> []" and lt: "\<forall>ip \<in> set parsed. sharedPrefixLen ip m < 31"
  shows "\<exists>i < length ipList. longestPrefixMatch ipList matchIp = Inr (Some (ipList ! i)) \<and>
     (\<forall>j < length ipList. sharedPrefixLen (parsed ! j) m \<le> sharedPrefixLen (parsed ! i) m) \<and>
     (\<forall>j < i. sharedPrefixLen (parsed ! j) m < sharedPrefixLen (parsed ! i) m)"
proof -
  from p have len: "length parsed = length ipList"
    using length_map by metis
  have oct: "length ip = 4 \<and> list_all (\<lambda>n. n \<le> 255) ip" if "ip \<in> set parsed" for ip
  proof -
    from that obtain j where j: "j < length parsed" "parsed ! j = ip"
      by (auto simp: in_set_conv_nth)
    with len have "map IPv4_parse ipList ! j = IPv4_parse (ipList ! j)" by simp
    with p j have "IPv4_parse (ipList ! j) = Inr ip" by simp
    from IPv4_parse_octets [OF this] show ?thesis by simp
  qed
  note octm = IPv4_parse_octets [OF m]
  define pm where "pm = map (\<lambda>ip. int (sharedPrefixLen ip m)) parsed"
  have "\<forall>ip \<in> set parsed. maskLoop ip m 1 = Some (int (sharedPrefixLen ip m))"
  proof
    fix ip
    assume ip: "ip \<in> set parsed"
    from oct [OF ip] octm have "maskLoop ip m 1 =
        (if sharedPrefixLen ip m < 31 then Some (int (sharedPrefixLen ip m)) else None)"
      by (intro maskLoop_prefix) simp_all
    with lt ip show "maskLoop ip m 1 = Some (int (sharedPrefixLen ip m))"
      by (simp del: maskLoop.simps)
  qed
  then have "List.map_filter (\<lambda>ip. maskLoop ip m 1) parsed = pm"
    unfolding pm_def by (rule map_filter_all_Some)
  with ipLoop_parsed [OF p, of m "[]"] have loop: "ipLoop ipList m [] = Inr pm"
    by (simp del: maskLoop.simps)
  from ne len have pne: "pm \<noteq> []" and plen: "length pm = length ipList"
    by (auto simp: pm_def)
  define i where "i = nat (indexOf pm (Max (set pm)))"
  from pne have mem: "Max (set pm) \<in> set pm"
    by (intro Max_in) simp_all
  from indexOf_member [OF mem] have ib: "0 \<le> indexOf pm (Max (set pm))" "i < length pm"
    by (auto simp: i_def)
  from indexOf_first [OF mem] have first: "pm ! i = Max (set pm)" "\<forall>j < i. pm ! j \<noteq> Max (set pm)"
    by (simp_all add: i_def)
  have le: "pm ! j \<le> pm ! i" if "j < length pm" for j
    using that first(1) by simp
  have "longestPrefixMatch ipList matchIp = Inr (arrayGet ipList (indexOf pm (Max (set pm))))"
    by (simp add: longestPrefixMatch_def m loop Math_max_Max [OF pne] indexOf_map_Num)
  with ib plen have res: "longestPrefixMatch ipList matchIp = Inr (Some (ipList ! i))"
    by (simp add: arrayGet_def i_def)
  have nth: "pm ! j = int (sharedPrefixLen (parsed ! j) m)" if "j < length ipList" for j
    using that len by (simp add: pm_def)
  from ib plen have il: "i < length ipList" by simp
  have a: "\<forall>j < length ipList. sharedPrefixLen (parsed ! j) m \<le> sharedPrefixLen (parsed ! i) m"
  proof (intro allI impI)
    fix j
    assume j: "j < length ipList"
    with le [of j] plen nth [OF j] nth [OF il]
    show "sharedPrefixLen (parsed ! j) m \<le> sharedPrefixLen (parsed ! i) m" by simp
  qed
  have b: "\<forall>j < i. sharedPrefixLen (parsed ! j) m < sharedPrefixLen (parsed ! i) m"
  proof (intro allI impI)
    fix j
    assume j: "j < i"
    with il have jl: "j < length ipList" by simp
    from first j have "pm ! j \<noteq> pm ! i" by simp
    moreover from le [of j] jl plen have "pm ! j \<le> pm ! i" by simp
    ultimately have "pm ! j < pm ! i" by simp
    with nth [OF jl] nth [OF il]
    show "sharedPrefixLen (parsed ! j) m < sharedPrefixLen (parsed ! i) m" by simp
  qed
  from il res a b show ?thesis by blast
qed

text \<open>
  When some entry of the list shares at most 30 bits with the address,
  \<open>longestPrefixMatch\<close> returns an entry of the list.
\<close>

lemma longestPrefixMatch_member:
  assumes v: "list_all isValid ipList" and m: "IPv4_parse matchIp = Inr m"
    and s: "s \<in> set ipList" "IPv4_parse s = Inr ip" "sharedPrefixLen ip m < 31"
  shows "\<exists>r \<in> set ipList. longestPrefixMatch ipList matchIp = Inr (Some r)"
proof -
  note oct = IPv4_parse_octets [OF s(2)] and octm = IPv4_parse_octets [OF m]
  from s(3) have "maskLoop ip m 1 \<noteq> None"
    by (simp add: maskLoop_prefix [OF oct(1) octm(1) oct(2) octm(2)] del: maskLoop.simps)
  with s have "\<exists>s \<in> set ipList. \<exists>ip. IPv4_parse s = Inr ip \<and> maskLoop ip m 1 \<noteq> None"
    by blast
  with ipLoop_length [OF v, of m "[]"] obtain pm where
    pm: "ipLoop ipList m [] = Inr pm" "0 < length pm" "length pm \<le> length ipList"
    by (auto simp del: maskLoop.simps)
  define maxIndex where "maxIndex = indexOf (map Num pm) (Math_max pm)"
  from pm(2) have "Math_max pm \<in> set (map Num pm)"
    by (intro Math_max_member) auto
  from indexOf_member [OF this] pm(3)
  have i: "0 \<le> maxIndex" "maxIndex < int (length ipList)"
    by (simp_all add: maxIndex_def)
  then have "arrayGet ipList maxIndex = Some (ipList ! nat maxIndex)"
    and "ipList ! nat maxIndex \<in> set ipList"
    by (simp_all add: arrayGet_def)
  moreover have "longestPrefixMatch ipList matchIp = Inr (arrayGet ipList maxIndex)"
    by (simp add: longestPrefixMatch_def m pm(1) maxIndex_def)
  ultimately show ?thesis by simp
qed

subsection \<open>Where the mask loop pushes nothing\<close>

text \<open>
  Claim C1 asks for the table entry with the longest shared prefix. The inner loop of
  \<open>longestPrefixMatch\<close> pushes a length only when some mask from 1 to 31 fails to match;
  for an entry that shares 31 or 32 bits with the private address nothing is pushed, so
  that entry is never a candidate and every later index of \<open>prefixMatches\<close> is one less
  than the entry's index in the table. For the private address 192.168.0.31 the table
  holds 192.168.0.30, which shares 31 bits; the function returns 192.168.0.1, which
  shares 27.
\<close>

theorem filterRouterIps_misses_longest_prefix:
  "filterRouterIps [''192.168.0.31''] = Inr [Some ''192.168.0.1''] \<and>
   ''192.168.0.30'' \<in> set ROUTER_IPS \<and>
   IPv4_parse ''192.168.0.31'' = Inr [192, 168, 0, 31] \<and>
   IPv4_parse ''192.168.0.30'' = Inr [192, 168, 0, 30] \<and>
   IPv4_parse ''192.168.0.1'' = Inr [192, 168, 0, 1] \<and>
   sharedPrefixLen [192, 168, 0, 30] [192, 168, 0, 31] = 31 \<and>
   sharedPrefixLen [192, 168, 0, 1] [192, 168, 0, 31] = 27"
proof -
  have "filterRouterIps [''192.168.0.31''] = Inr [Some ''192.168.0.1'']"
    by (simp add: filterRouterIps_def longestPrefixMatch_examples)
  moreover have "''192.168.0.30'' \<in> set ROUTER_IPS"
    by (simp add: ROUTER_IPS_def)
  moreover have "sharedPrefixLen [192, 168, 0, 30] [192, 168, 0, 31] = 31"
    by code_simp
  moreover have "sharedPrefixLen [192, 168, 0, 1] [192, 168, 0, 31] = 27"
    by code_simp
  ultimately show ?thesis
    by (simp add: private_parse)
qed

text \<open>
  Claim C2 asks that \<open>longestPrefixMatch\<close> returns an element of a non-empty list. When
  every entry of the list shares at least 31 bits with the address (here the list holds
  the address itself), \<open>prefixMatches\<close> stays empty, its maximum is \<open>-Infinity\<close>, \<open>indexOf\<close>
  gives -1 and the result is \<open>undefined\<close>.
\<close>

theorem longestPrefixMatch_undefined:
  "longestPrefixMatch [''10.0.0.1''] ''10.0.0.1'' = Inr None \<and>
   ipLoop [''10.0.0.1''] [10, 0, 0, 1] [] = Inr [] \<and>
   indexOf (map Num []) (Math_max []) = - 1"
proof -
  have "map IPv4_parse [''10.0.0.1''] = map Inr [[10, 0, 0, 1]]"
    by (simp add: private_parse)
  from ipLoop_parsed [OF this, of "[10, 0, 0, 1]" "[]"]
  have pm: "ipLoop [''10.0.0.1''] [10, 0, 0, 1] [] = Inr []"
    by (simp add: IPv4_match_def)
  then show ?thesis
    by (simp add: longestPrefixMatch_def private_parse arrayGet_def)
qed

end
